theory Spec2Isabelle
  imports Main "HOL-Library.Multiset" "HOL-Library.Sublist"
begin

section \<open>Enumerations\<close>

text \<open>
  The C enums imported by \<^verbatim>\<open>matching_core.pyx\<close>. Every dispatch of the source ends in an
  \<^verbatim>\<open>else: raise\<close> branch, so each enum carries the values that reach it: a side that is
  neither \<^verbatim>\<open>BUY\<close> nor \<^verbatim>\<open>SELL\<close>, and the order type \<^verbatim>\<open>MARKET\<close> that the docstring of
  \<^verbatim>\<open>match_order\<close> names as invalid for the core.
\<close>

datatype OrderSide = BUY | SELL | NO_ORDER_SIDE

datatype OrderType =
    MARKET
  | LIMIT
  | STOP_MARKET
  | STOP_LIMIT
  | MARKET_TO_LIMIT
  | MARKET_IF_TOUCHED
  | LIMIT_IF_TOUCHED
  | TRAILING_STOP_MARKET
  | TRAILING_STOP_LIMIT

datatype LiquiditySide = NO_LIQUIDITY_SIDE | MAKER | TAKER

text \<open>The exceptions the source raises; \<open>CallbackError\<close> stands for whatever an injected
  callback may raise.\<close>

datatype error = RuntimeError | TypeError | ValueError | CallbackError

section \<open>Orders and the object store\<close>

text \<open>
  Orders are Python objects shared between the core, its caller and the callbacks: the
  core's dict and lists hold references, and the callbacks mutate the objects in place.
  A reference is an address \<open>oref\<close>, the objects live in a store \<open>oref \<Rightarrow> Order\<close>.

  Prices are \<^verbatim>\<open>Price._mem.raw\<close>, a signed 64-bit integer that the core only ever compares,
  so it is an \<open>int\<close>. The class \<^verbatim>\<open>Order\<close> is not among the sources; the record has the
  attributes the core reads and writes, every order carrying both a \<open>price\<close> and a
  \<open>trigger_price\<close> (the order type system guarantees the presence of the one a matcher reads).
\<close>

type_synonym oref = nat

record Order =
  client_order_id :: nat
  side :: OrderSide
  order_type :: OrderType
  price :: int
  trigger_price :: int
  is_triggered :: bool
  triggered_price :: "int option"
  liquidity_side :: LiquiditySide
  is_closed :: bool

type_synonym store = "oref \<Rightarrow> Order"

text \<open>
  Modelled from the spec: \<^verbatim>\<open>Order.__eq__\<close>, which Python's \<^verbatim>\<open>in\<close> and \<^verbatim>\<open>list.remove\<close> call and
  which is not among the sources. The spec addresses an order by its unique
  \<^verbatim>\<open>client_order_id\<close>; Python tries identity before \<^verbatim>\<open>__eq__\<close>.
\<close>

definition order_eq :: "store \<Rightarrow> oref \<Rightarrow> oref \<Rightarrow> bool" where
  "order_eq h a b = (a = b \<or> client_order_id (h a) = client_order_id (h b))"

text \<open>\<^verbatim>\<open>order in xs\<close>\<close>

definition order_in :: "store \<Rightarrow> oref \<Rightarrow> oref list \<Rightarrow> bool" where
  "order_in h a xs = list_ex (\<lambda>x. order_eq h x a) xs"

text \<open>\<^verbatim>\<open>xs.remove(order)\<close>: drops the first element equal to the order. The source guards
  every call with \<^verbatim>\<open>in\<close>, so the \<^verbatim>\<open>ValueError\<close> of an absent element is never reached.\<close>

fun list_remove :: "store \<Rightarrow> oref \<Rightarrow> oref list \<Rightarrow> oref list" where
  "list_remove h a [] = []"
| "list_remove h a (x # xs) = (if order_eq h x a then xs else x # list_remove h a xs)"

section \<open>The sort key\<close>

definition order_sort_key :: "Order \<Rightarrow> error + int" where
  "order_sort_key ord =
     (if order_type ord = LIMIT then Inr (price ord)
      else if order_type ord = MARKET_TO_LIMIT then Inr (price ord)
      else if order_type ord = STOP_MARKET then Inr (trigger_price ord)
      else if order_type ord = STOP_LIMIT then
        Inr (if is_triggered ord then price ord else trigger_price ord)
      else if order_type ord = MARKET_IF_TOUCHED then Inr (trigger_price ord)
      else if order_type ord = LIMIT_IF_TOUCHED then
        Inr (if is_triggered ord then price ord else trigger_price ord)
      else if order_type ord = TRAILING_STOP_MARKET then Inr (trigger_price ord)
      else if order_type ord = TRAILING_STOP_LIMIT then
        Inr (if is_triggered ord then price ord else trigger_price ord)
      else Inl RuntimeError)"

text \<open>
  \<^verbatim>\<open>list.sort(key=..., reverse=...)\<close>: CPython first computes the key of every element, in
  list order; a key function that raises leaves the list as it was. The sort is stable,
  also with \<^verbatim>\<open>reverse=True\<close>, which is a stable sort on the negated key.
\<close>

fun keyed :: "store \<Rightarrow> oref list \<Rightarrow> error + (int \<times> oref) list" where
  "keyed h [] = Inr []"
| "keyed h (x # xs) =
     (case order_sort_key (h x) of
        Inl e \<Rightarrow> Inl e
      | Inr k \<Rightarrow> (case keyed h xs of Inl e \<Rightarrow> Inl e | Inr kxs \<Rightarrow> Inr ((k, x) # kxs)))"

definition list_sort :: "store \<Rightarrow> bool \<Rightarrow> oref list \<Rightarrow> error + oref list" where
  "list_sort h reverse xs =
     (case keyed h xs of
        Inl e \<Rightarrow> Inl e
      | Inr kxs \<Rightarrow>
          Inr (map snd (sort_key (\<lambda>kx. if reverse then - fst kx else fst kx) kxs)))"

section \<open>The matching core\<close>

record MatchingCore =
  bid_raw :: int
  ask_raw :: int
  last_raw :: int
  is_bid_initialized :: bool
  is_ask_initialized :: bool
  is_last_initialized :: bool
  orders :: "nat \<rightharpoonup> oref"
  orders_bid :: "oref list"
  orders_ask :: "oref list"

text \<open>\<^verbatim>\<open>__init__\<close>\<close>

definition init_core :: MatchingCore where
  "init_core =
     \<lparr>bid_raw = 0, ask_raw = 0, last_raw = 0,
      is_bid_initialized = False, is_ask_initialized = False, is_last_initialized = False,
      orders = Map.empty, orders_bid = [], orders_ask = []\<rparr>"

subsection \<open>Queries\<close>

definition get_order :: "MatchingCore \<Rightarrow> nat \<Rightarrow> oref option" where
  "get_order c cid = orders c cid"

definition order_exists :: "MatchingCore \<Rightarrow> nat \<Rightarrow> bool" where
  "order_exists c cid = (cid \<in> dom (orders c))"

definition get_orders :: "MatchingCore \<Rightarrow> oref list" where
  "get_orders c = orders_bid c @ orders_ask c"

definition get_orders_bid :: "MatchingCore \<Rightarrow> oref list" where
  "get_orders_bid c = orders_bid c"

definition get_orders_ask :: "MatchingCore \<Rightarrow> oref list" where
  "get_orders_ask c = orders_ask c"

subsection \<open>Commands\<close>

definition set_bid_raw :: "int \<Rightarrow> MatchingCore \<Rightarrow> MatchingCore" where
  "set_bid_raw v c = c\<lparr>is_bid_initialized := True, bid_raw := v\<rparr>"

definition set_ask_raw :: "int \<Rightarrow> MatchingCore \<Rightarrow> MatchingCore" where
  "set_ask_raw v c = c\<lparr>is_ask_initialized := True, ask_raw := v\<rparr>"

definition set_last_raw :: "int \<Rightarrow> MatchingCore \<Rightarrow> MatchingCore" where
  "set_last_raw v c = c\<lparr>is_last_initialized := True, last_raw := v\<rparr>"

definition reset :: "MatchingCore \<Rightarrow> MatchingCore" where
  "reset c =
     c\<lparr>orders := Map.empty, orders_bid := [], orders_ask := [],
       bid_raw := 0, ask_raw := 0, last_raw := 0,
       is_bid_initialized := False, is_ask_initialized := False,
       is_last_initialized := False\<rparr>"

text \<open>
  A method that may raise returns the exception, if any, together with the state it
  leaves behind: what was written before the \<^verbatim>\<open>raise\<close> stays written.
\<close>

definition sort_bid_orders :: "store \<Rightarrow> MatchingCore \<Rightarrow> error option \<times> MatchingCore" where
  "sort_bid_orders h c =
     (case list_sort h True (orders_bid c) of
        Inl e \<Rightarrow> (Some e, c)
      | Inr xs \<Rightarrow> (None, c\<lparr>orders_bid := xs\<rparr>))"

definition sort_ask_orders :: "store \<Rightarrow> MatchingCore \<Rightarrow> error option \<times> MatchingCore" where
  "sort_ask_orders h c =
     (case list_sort h False (orders_ask c) of
        Inl e \<Rightarrow> (Some e, c)
      | Inr xs \<Rightarrow> (None, c\<lparr>orders_ask := xs\<rparr>))"

definition add_order :: "store \<Rightarrow> oref \<Rightarrow> MatchingCore \<Rightarrow> error option \<times> MatchingCore" where
  "add_order h order c =
     (let c1 = c\<lparr>orders := (orders c)(client_order_id (h order) \<mapsto> order)\<rparr> in
      if side (h order) = BUY then
        sort_bid_orders h (c1\<lparr>orders_bid := orders_bid c1 @ [order]\<rparr>)
      else if side (h order) = SELL then
        sort_ask_orders h (c1\<lparr>orders_ask := orders_ask c1 @ [order]\<rparr>)
      else (Some RuntimeError, c1))"

definition delete_order :: "store \<Rightarrow> oref \<Rightarrow> MatchingCore \<Rightarrow> error option \<times> MatchingCore" where
  "delete_order h order c =
     (let c1 = c\<lparr>orders := (orders c)(client_order_id (h order) := None)\<rparr> in
      if side (h order) = BUY then
        (None, if order_in h order (orders_bid c1)
               then c1\<lparr>orders_bid := list_remove h order (orders_bid c1)\<rparr> else c1)
      else if side (h order) = SELL then
        (None, if order_in h order (orders_ask c1)
               then c1\<lparr>orders_ask := list_remove h order (orders_ask c1)\<rparr> else c1)
      else (Some RuntimeError, c1))"

subsection \<open>Predicates\<close>

definition is_limit_matched :: "MatchingCore \<Rightarrow> OrderSide \<Rightarrow> int \<Rightarrow> error + bool" where
  "is_limit_matched c sd p =
     (if sd = BUY then
        (if \<not> is_ask_initialized c then Inr False else Inr (ask_raw c \<le> p))
      else if sd = SELL then
        (if \<not> is_bid_initialized c then Inr False else Inr (bid_raw c \<ge> p))
      else Inl ValueError)"

definition is_stop_triggered :: "MatchingCore \<Rightarrow> OrderSide \<Rightarrow> int \<Rightarrow> error + bool" where
  "is_stop_triggered c sd tp =
     (if sd = BUY then
        (if \<not> is_ask_initialized c then Inr False else Inr (ask_raw c \<ge> tp))
      else if sd = SELL then
        (if \<not> is_bid_initialized c then Inr False else Inr (bid_raw c \<le> tp))
      else Inl ValueError)"

definition is_touch_triggered :: "MatchingCore \<Rightarrow> OrderSide \<Rightarrow> int \<Rightarrow> error + bool" where
  "is_touch_triggered c sd tp =
     (if sd = BUY then
        (if \<not> is_ask_initialized c then Inr False else Inr (ask_raw c \<le> tp))
      else if sd = SELL then
        (if \<not> is_bid_initialized c then Inr False else Inr (bid_raw c \<ge> tp))
      else Inl ValueError)"

definition determine_order_liquidity :: "bool \<Rightarrow> OrderSide \<Rightarrow> int \<Rightarrow> int \<Rightarrow> LiquiditySide" where
  "determine_order_liquidity initial sd p tp =
     (if initial then TAKER
      else if sd = BUY \<and> tp > p then MAKER
      else if sd = SELL \<and> tp < p then MAKER
      else TAKER)"

section \<open>Matching\<close>

text \<open>
  The matchers mutate the order objects and call the three injected callbacks, which may in
  turn mutate any order and re-enter the core. So a matcher runs on the whole \<open>world\<close>, the
  core together with the object store, and a callback is any function on the world that
  returns normally or raises. The core keeps the callbacks in attributes; here they are a
  parameter, because a record cannot hold functions on the world it is part of.
\<close>

record world =
  core :: MatchingCore
  heap :: store

record callbacks =
  trigger_stop_order :: "oref \<Rightarrow> world \<Rightarrow> error option \<times> world"
  fill_market_order :: "oref \<Rightarrow> world \<Rightarrow> error option \<times> world"
  fill_limit_order :: "oref \<Rightarrow> world \<Rightarrow> error option \<times> world"

text \<open>
  What a matcher does is observable only through its writes to the order and its calls of
  the callbacks. Each of them is logged as an \<open>event\<close>, in the order it happens; the log
  of a call is returned with the exception (if any) and the world the call leaves.
\<close>

datatype event =
    MatchOrder oref bool
  | SetTriggeredPrice oref int
  | SetLiquiditySide oref LiquiditySide
  | TriggerStopOrder oref
  | FillMarketOrder oref
  | FillLimitOrder oref

type_synonym outcome = "error option \<times> event list \<times> world"

text \<open>Sequencing of statements: an exception ends the sequence where it is raised.\<close>

definition then_do :: "outcome \<Rightarrow> (world \<Rightarrow> outcome) \<Rightarrow> outcome" where
  "then_do r f =
     (case r of
        (Some e, evs, w) \<Rightarrow> (Some e, evs, w)
      | (None, evs, w) \<Rightarrow> (case f w of (e', evs', w') \<Rightarrow> (e', evs @ evs', w')))"

text \<open>
  Modelled from the spec: \<^verbatim>\<open>Order.set_triggered_price_c\<close>, the mutator the core calls on
  activation; it stores the given price as the order's triggered price.
\<close>

definition set_triggered_price_c :: "oref \<Rightarrow> int \<Rightarrow> world \<Rightarrow> outcome" where
  "set_triggered_price_c order p w =
     (None, [SetTriggeredPrice order p],
      w\<lparr>heap := (heap w)(order := (heap w order)\<lparr>triggered_price := Some p\<rparr>)\<rparr>)"

text \<open>\<^verbatim>\<open>order.liquidity_side = ...\<close>\<close>

definition set_liquidity_side :: "oref \<Rightarrow> LiquiditySide \<Rightarrow> world \<Rightarrow> outcome" where
  "set_liquidity_side order l w =
     (None, [SetLiquiditySide order l],
      w\<lparr>heap := (heap w)(order := (heap w order)\<lparr>liquidity_side := l\<rparr>)\<rparr>)"

definition call_trigger_stop_order :: "callbacks \<Rightarrow> oref \<Rightarrow> world \<Rightarrow> outcome" where
  "call_trigger_stop_order cbs order w =
     (case trigger_stop_order cbs order w of (e, w') \<Rightarrow> (e, [TriggerStopOrder order], w'))"

definition call_fill_market_order :: "callbacks \<Rightarrow> oref \<Rightarrow> world \<Rightarrow> outcome" where
  "call_fill_market_order cbs order w =
     (case fill_market_order cbs order w of (e, w') \<Rightarrow> (e, [FillMarketOrder order], w'))"

definition call_fill_limit_order :: "callbacks \<Rightarrow> oref \<Rightarrow> world \<Rightarrow> outcome" where
  "call_fill_limit_order cbs order w =
     (case fill_limit_order cbs order w of (e, w') \<Rightarrow> (e, [FillLimitOrder order], w'))"

text \<open>
  The block that recurs in the limit, stop-limit and limit-if-touched matchers:
  \<^verbatim>\<open>if self.is_limit_matched(order.side, order.price):
      order.liquidity_side = <l>; self._fill_limit_order(order)\<close>
\<close>

definition fill_if_limit_matched :: "callbacks \<Rightarrow> oref \<Rightarrow> LiquiditySide \<Rightarrow> world \<Rightarrow> outcome" where
  "fill_if_limit_matched cbs order l w =
     (case is_limit_matched (core w) (side (heap w order)) (price (heap w order)) of
        Inl e \<Rightarrow> (Some e, [], w)
      | Inr matched \<Rightarrow>
          if matched then then_do (set_liquidity_side order l w) (call_fill_limit_order cbs order)
          else (None, [], w))"

definition match_limit_order :: "callbacks \<Rightarrow> oref \<Rightarrow> world \<Rightarrow> outcome" where
  "match_limit_order cbs order w = fill_if_limit_matched cbs order MAKER w"

definition match_stop_market_order :: "callbacks \<Rightarrow> oref \<Rightarrow> world \<Rightarrow> outcome" where
  "match_stop_market_order cbs order w =
     (case is_stop_triggered (core w) (side (heap w order)) (trigger_price (heap w order)) of
        Inl e \<Rightarrow> (Some e, [], w)
      | Inr triggered \<Rightarrow>
          if triggered then
            then_do (set_triggered_price_c order (trigger_price (heap w order)) w)
              (call_fill_market_order cbs order)
          else (None, [], w))"

definition match_stop_limit_order :: "callbacks \<Rightarrow> oref \<Rightarrow> bool \<Rightarrow> world \<Rightarrow> outcome" where
  "match_stop_limit_order cbs order initial w =
     (if is_triggered (heap w order) then fill_if_limit_matched cbs order MAKER w
      else
        (case is_stop_triggered (core w) (side (heap w order)) (trigger_price (heap w order)) of
           Inl e \<Rightarrow> (Some e, [], w)
         | Inr triggered \<Rightarrow>
             if triggered then
               then_do (set_triggered_price_c order (trigger_price (heap w order)) w) (\<lambda>w1.
               then_do (set_liquidity_side order
                          (determine_order_liquidity initial (side (heap w1 order))
                             (price (heap w1 order)) (trigger_price (heap w1 order))) w1) (\<lambda>w2.
               then_do (call_trigger_stop_order cbs order w2)
                 (fill_if_limit_matched cbs order TAKER)))
             else (None, [], w)))"

definition match_market_if_touched_order :: "callbacks \<Rightarrow> oref \<Rightarrow> world \<Rightarrow> outcome" where
  "match_market_if_touched_order cbs order w =
     (case is_touch_triggered (core w) (side (heap w order)) (trigger_price (heap w order)) of
        Inl e \<Rightarrow> (Some e, [], w)
      | Inr triggered \<Rightarrow>
          if triggered then
            then_do (set_triggered_price_c order (trigger_price (heap w order)) w)
              (call_fill_market_order cbs order)
          else (None, [], w))"

definition match_limit_if_touched_order :: "callbacks \<Rightarrow> oref \<Rightarrow> bool \<Rightarrow> world \<Rightarrow> outcome" where
  "match_limit_if_touched_order cbs order initial w =
     (if is_triggered (heap w order) then fill_if_limit_matched cbs order MAKER w
      else
        (case is_touch_triggered (core w) (side (heap w order)) (trigger_price (heap w order)) of
           Inl e \<Rightarrow> (Some e, [], w)
         | Inr triggered \<Rightarrow>
             if triggered then
               then_do (if \<not> initial
                        then set_triggered_price_c order (trigger_price (heap w order)) w
                        else (None, [], w)) (\<lambda>w1.
               then_do (set_liquidity_side order
                          (determine_order_liquidity initial (side (heap w1 order))
                             (price (heap w1 order)) (trigger_price (heap w1 order))) w1) (\<lambda>w2.
               then_do (call_trigger_stop_order cbs order w2)
                 (fill_if_limit_matched cbs order TAKER)))
             else (None, [], w)))"

text \<open>
  \<^verbatim>\<open>match_order\<close>. \<open>dispatch\<close> is its body, the \<^verbatim>\<open>if\<close>/\<^verbatim>\<open>elif\<close> chain on the order type;
  \<open>match_order\<close> logs the call itself and then runs the body, so that the log of a sweep
  shows which orders it matched.
\<close>

definition dispatch :: "callbacks \<Rightarrow> oref \<Rightarrow> bool \<Rightarrow> world \<Rightarrow> outcome" where
  "dispatch cbs order initial w =
     (if order_type (heap w order) = LIMIT \<or> order_type (heap w order) = MARKET_TO_LIMIT then
        match_limit_order cbs order w
      else if order_type (heap w order) = STOP_LIMIT
            \<or> order_type (heap w order) = TRAILING_STOP_LIMIT then
        match_stop_limit_order cbs order initial w
      else if order_type (heap w order) = STOP_MARKET
            \<or> order_type (heap w order) = TRAILING_STOP_MARKET then
        match_stop_market_order cbs order w
      else if order_type (heap w order) = LIMIT_IF_TOUCHED then
        match_limit_if_touched_order cbs order initial w
      else if order_type (heap w order) = MARKET_IF_TOUCHED then
        match_market_if_touched_order cbs order w
      else (Some TypeError, [], w))"

definition match_order :: "callbacks \<Rightarrow> oref \<Rightarrow> bool \<Rightarrow> world \<Rightarrow> outcome" where
  "match_order cbs order initial w =
     then_do (None, [MatchOrder order initial], w) (dispatch cbs order initial)"

text \<open>
  \<^verbatim>\<open>iterate\<close>: the \<^verbatim>\<open>for\<close> loop runs over \<^verbatim>\<open>self._orders_bid + self._orders_ask\<close>, a new list
  built once, before the first pass. \<open>iterate_loop\<close> is the loop over that list; the call
  \<^verbatim>\<open>self.match_order(order)\<close> leaves \<^verbatim>\<open>initial\<close> at its default, False.
\<close>

fun iterate_loop :: "callbacks \<Rightarrow> oref list \<Rightarrow> world \<Rightarrow> outcome" where
  "iterate_loop cbs [] w = (None, [], w)"
| "iterate_loop cbs (order # rest) w =
     (if is_closed (heap w order) then iterate_loop cbs rest w
      else then_do (match_order cbs order False w) (\<lambda>w'. iterate_loop cbs rest w'))"

definition iterate :: "callbacks \<Rightarrow> nat \<Rightarrow> world \<Rightarrow> outcome" where
  "iterate cbs timestamp_ns w =
     iterate_loop cbs (orders_bid (core w) @ orders_ask (core w)) w"

section \<open>Notions used by the properties\<close>

text \<open>The side list an order belongs to, as \<^verbatim>\<open>add_order\<close> and \<^verbatim>\<open>delete_order\<close> choose it.\<close>

definition side_book :: "store \<Rightarrow> oref \<Rightarrow> MatchingCore \<Rightarrow> oref list" where
  "side_book h order c = (if side (h order) = BUY then orders_bid c else orders_ask c)"

text \<open>A list is sortable when \<^verbatim>\<open>order_sort_key\<close> raises on none of its orders.\<close>

definition sortable :: "store \<Rightarrow> oref list \<Rightarrow> bool" where
  "sortable h xs = list_all (\<lambda>x. order_type (h x) \<noteq> MARKET) xs"

subsection \<open>Example stores and cores\<close>

definition example_order :: Order where
  "example_order =
     \<lparr>client_order_id = 0, side = BUY, order_type = LIMIT, price = 0, trigger_price = 0,
      is_triggered = False, triggered_price = None, liquidity_side = NO_LIQUIDITY_SIDE,
      is_closed = False\<rparr>"

text \<open>A store whose orders carry a side outside the enum.\<close>

definition store_no_side :: store where
  "store_no_side = (\<lambda>_. example_order\<lparr>side := NO_ORDER_SIDE\<rparr>)"

text \<open>A store of limit buy orders, and the core after adding order 0 once and twice.\<close>

definition store_one :: store where
  "store_one = (\<lambda>_. example_order)"

definition core_added_once :: MatchingCore where
  "core_added_once = snd (add_order store_one 0 init_core)"

definition core_added_twice :: MatchingCore where
  "core_added_twice = snd (add_order store_one 0 core_added_once)"

subsection \<open>Example callbacks and worlds\<close>

text \<open>A trigger callback that marks the order triggered and fill callbacks that close it,
  as an exchange does.\<close>

definition mark_triggered :: "oref \<Rightarrow> world \<Rightarrow> error option \<times> world" where
  "mark_triggered order w =
     (None, w\<lparr>heap := (heap w)(order := (heap w order)\<lparr>is_triggered := True\<rparr>)\<rparr>)"

definition close_order :: "oref \<Rightarrow> world \<Rightarrow> error option \<times> world" where
  "close_order order w =
     (None, w\<lparr>heap := (heap w)(order := (heap w order)\<lparr>is_closed := True\<rparr>)\<rparr>)"

definition engine_callbacks :: callbacks where
  "engine_callbacks =
     \<lparr>trigger_stop_order = mark_triggered, fill_market_order = close_order,
      fill_limit_order = close_order\<rparr>"

text \<open>Stop-limit buy, trigger 10050 and limit 10200, against bid 10090 and ask 10100.\<close>

definition stop_limit_buy :: Order where
  "stop_limit_buy =
     example_order\<lparr>order_type := STOP_LIMIT, trigger_price := 10050, price := 10200\<rparr>"

definition world_stop_limit :: world where
  "world_stop_limit =
     \<lparr>core = set_bid_raw 10090 (set_ask_raw 10100 init_core), heap = (\<lambda>_. stop_limit_buy)\<rparr>"

text \<open>Limit-if-touched buy, trigger 10050 and limit 9950, against ask 10000.\<close>

definition limit_if_touched_buy :: Order where
  "limit_if_touched_buy =
     example_order\<lparr>order_type := LIMIT_IF_TOUCHED, trigger_price := 10050, price := 9950\<rparr>"

definition world_limit_if_touched :: world where
  "world_limit_if_touched =
     \<lparr>core = set_ask_raw 10000 init_core, heap = (\<lambda>_. limit_if_touched_buy)\<rparr>"

text \<open>Limit-if-touched buy, trigger 10050 and limit 10020, against ask 10000: touched and
  marketable.\<close>

definition limit_if_touched_marketable :: Order where
  "limit_if_touched_marketable =
     example_order\<lparr>order_type := LIMIT_IF_TOUCHED, trigger_price := 10050, price := 10020\<rparr>"

definition world_limit_if_touched_marketable :: world where
  "world_limit_if_touched_marketable =
     \<lparr>core = set_ask_raw 10000 init_core, heap = (\<lambda>_. limit_if_touched_marketable)\<rparr>"

text \<open>A trigger callback that reads \<^verbatim>\<open>core.last\<close>: it raises while no last price has been
  published and marks the order triggered otherwise.\<close>

definition trigger_needs_last :: "oref \<Rightarrow> world \<Rightarrow> error option \<times> world" where
  "trigger_needs_last order w =
     (if is_last_initialized (core w) then mark_triggered order w else (Some CallbackError, w))"

definition last_reading_callbacks :: callbacks where
  "last_reading_callbacks =
     \<lparr>trigger_stop_order = trigger_needs_last, fill_market_order = close_order,
      fill_limit_order = close_order\<rparr>"

text \<open>The events that are a call of \<^verbatim>\<open>set_triggered_price_c\<close>.\<close>

fun is_set_triggered_price :: "event \<Rightarrow> bool" where
  "is_set_triggered_price (SetTriggeredPrice _ _) = True"
| "is_set_triggered_price _ = False"

subsection \<open>States that differ only in the last price\<close>

definition differ_only_in_last :: "MatchingCore \<Rightarrow> MatchingCore \<Rightarrow> bool" where
  "differ_only_in_last c1 c2 =
     (c2 = c1\<lparr>last_raw := last_raw c2, is_last_initialized := is_last_initialized c2\<rparr>)"

definition worlds_differ_only_in_last :: "world \<Rightarrow> world \<Rightarrow> bool" where
  "worlds_differ_only_in_last w1 w2 =
     (heap w1 = heap w2 \<and> differ_only_in_last (core w1) (core w2))"

text \<open>
  The callbacks are outside the core. Matching can be independent of the last price only
  when they are: run on two worlds that differ only in the last price, a callback raises
  on both or on neither and leaves two worlds that again differ only in the last price.
\<close>

definition callback_ignores_last :: "(oref \<Rightarrow> world \<Rightarrow> error option \<times> world) \<Rightarrow> bool" where
  "callback_ignores_last cb =
     (\<forall>order w1 w2. worlds_differ_only_in_last w1 w2 \<longrightarrow>
        fst (cb order w1) = fst (cb order w2)
        \<and> worlds_differ_only_in_last (snd (cb order w1)) (snd (cb order w2)))"

definition callbacks_ignore_last :: "callbacks \<Rightarrow> bool" where
  "callbacks_ignore_last cbs =
     (callback_ignores_last (trigger_stop_order cbs)
      \<and> callback_ignores_last (fill_market_order cbs)
      \<and> callback_ignores_last (fill_limit_order cbs))"

text \<open>Two outcomes with the same exception, the same events and worlds that differ
  only in the last price.\<close>

definition same_outcome :: "outcome \<Rightarrow> outcome \<Rightarrow> bool" where
  "same_outcome r1 r2 =
     (fst r1 = fst r2 \<and> fst (snd r1) = fst (snd r2)
      \<and> worlds_differ_only_in_last (snd (snd r1)) (snd (snd r2)))"

subsection \<open>The orders a sweep matched\<close>

text \<open>The orders that \<open>match_order\<close> was called on, in the order of the calls.\<close>

fun matched_orders :: "event list \<Rightarrow> oref list" where
  "matched_orders [] = []"
| "matched_orders (MatchOrder x _ # evs) = x # matched_orders evs"
| "matched_orders (_ # evs) = matched_orders evs"

text \<open>
  Three limit buy orders with ids 0, 1, 2 at 10050, 10049, 10048; orders 0 and 1 rest in
  the core and the ask is 10000, so both are marketable. The fill callback closes the
  filled order and order 1, and adds order 2 to the core.
\<close>

definition store_sweep :: store where
  "store_sweep = (\<lambda>i. example_order\<lparr>client_order_id := i, price := 10050 - int i\<rparr>)"

definition fill_close_and_requeue :: "oref \<Rightarrow> world \<Rightarrow> error option \<times> world" where
  "fill_close_and_requeue order w =
     (let h = (heap w)(order := (heap w order)\<lparr>is_closed := True\<rparr>);
          h' = h(1 := (h 1)\<lparr>is_closed := True\<rparr>)
      in (None, \<lparr>core = snd (add_order h' 2 (core w)), heap = h'\<rparr>))"

definition sweep_callbacks :: callbacks where
  "sweep_callbacks =
     \<lparr>trigger_stop_order = mark_triggered, fill_market_order = close_order,
      fill_limit_order = fill_close_and_requeue\<rparr>"

definition world_sweep :: world where
  "world_sweep =
     \<lparr>core = set_ask_raw 10000
               (snd (add_order store_sweep 1 (snd (add_order store_sweep 0 init_core)))),
      heap = store_sweep\<rparr>"

subsection \<open>Sorted side lists\<close>

text \<open>
  The bid list is sorted when \<^verbatim>\<open>order_sort_key\<close> is defined on each of its orders and the
  keys, taken from the orders as they are now, descend along the list; the ask list when
  they ascend.
\<close>

definition bids_sorted :: "store \<Rightarrow> MatchingCore \<Rightarrow> bool" where
  "bids_sorted h c =
     (case keyed h (orders_bid c) of
        Inl e \<Rightarrow> False
      | Inr kxs \<Rightarrow> sorted_wrt (\<ge>) (map fst kxs))"

definition asks_sorted :: "store \<Rightarrow> MatchingCore \<Rightarrow> bool" where
  "asks_sorted h c =
     (case keyed h (orders_ask c) of
        Inl e \<Rightarrow> False
      | Inr kxs \<Rightarrow> sorted_wrt (\<le>) (map fst kxs))"

definition book_sorted :: "world \<Rightarrow> bool" where
  "book_sorted w = (bids_sorted (heap w) (core w) \<and> asks_sorted (heap w) (core w))"

text \<open>
  Two worlds with the same book: the same side lists, and the same sort key on every order
  in them. The writes of the matchers to an order leave the book the same.
\<close>

definition same_book :: "world \<Rightarrow> world \<Rightarrow> bool" where
  "same_book w w' =
     (orders_bid (core w') = orders_bid (core w) \<and> orders_ask (core w') = orders_ask (core w)
      \<and> list_all (\<lambda>x. order_sort_key (heap w' x) = order_sort_key (heap w x))
            (orders_bid (core w) @ orders_ask (core w)))"

text \<open>
  A callback keeps the lists sorted when, called on a world whose side lists are sorted, it
  leaves a world whose side lists are sorted. It may change orders and lists, and call
  \<open>delete_order\<close> or \<open>add_order\<close>; what it may not do is change the sort key of a resting
  order so that the list is out of order.
\<close>

definition callback_keeps_sorted :: "(oref \<Rightarrow> world \<Rightarrow> error option \<times> world) \<Rightarrow> bool" where
  "callback_keeps_sorted cb = (\<forall>order w. book_sorted w \<longrightarrow> book_sorted (snd (cb order w)))"

definition callbacks_keep_sorted :: "callbacks \<Rightarrow> bool" where
  "callbacks_keep_sorted cbs =
     (callback_keeps_sorted (trigger_stop_order cbs)
      \<and> callback_keeps_sorted (fill_market_order cbs)
      \<and> callback_keeps_sorted (fill_limit_order cbs))"

text \<open>
  A limit buy at 150 (order 0) and an untriggered stop-limit buy with trigger 100 and limit
  200 (order 1), both added to a fresh core, with the ask then set to 300: the stop has
  fired, neither limit is marketable.
\<close>

definition store_book :: store where
  "store_book =
     (\<lambda>i. if i = 0 then example_order\<lparr>price := 150\<rparr>
          else example_order\<lparr>client_order_id := 1, order_type := STOP_LIMIT,
                 trigger_price := 100, price := 200\<rparr>)"

definition world_book :: world where
  "world_book =
     \<lparr>core = set_ask_raw 300
               (snd (add_order store_book 1 (snd (add_order store_book 0 init_core)))),
      heap = store_book\<rparr>"

text \<open>
  Fill callbacks that close the filled order and take it out of the core with
  \<open>delete_order\<close>, and a trigger callback that only reports. The same book with the ask at
  120, where the limit buy at 150 is marketable.
\<close>

definition close_and_delete :: "oref \<Rightarrow> world \<Rightarrow> error option \<times> world" where
  "close_and_delete order w =
     (let h = (heap w)(order := (heap w order)\<lparr>is_closed := True\<rparr>)
      in (None, \<lparr>core = snd (delete_order h order (core w)), heap = h\<rparr>))"

definition closing_callbacks :: callbacks where
  "closing_callbacks =
     \<lparr>trigger_stop_order = (\<lambda>order w. (None, w)),
      fill_market_order = close_and_delete,
      fill_limit_order = close_and_delete\<rparr>"

definition world_book_marketable :: world where
  "world_book_marketable = world_book\<lparr>core := set_ask_raw 120 (core world_book)\<rparr>"

text \<open>
  What a well-behaved callback leaves alone. \<open>kept S w w'\<close>: from \<open>w\<close> to \<open>w'\<close> no order has
  changed its type or side, no closed order has been reopened, and only orders in \<open>S\<close> have
  been closed. A callback is orderly for \<open>S\<close> when it returns normally and keeps the world
  in this sense, with \<open>S order\<close> the orders that a call on \<open>order\<close> may close.
\<close>

definition kept :: "oref set \<Rightarrow> world \<Rightarrow> world \<Rightarrow> bool" where
  "kept S w w' =
     (\<forall>y. order_type (heap w' y) = order_type (heap w y)
          \<and> side (heap w' y) = side (heap w y)
          \<and> (is_closed (heap w y) \<longrightarrow> is_closed (heap w' y))
          \<and> (y \<notin> S \<longrightarrow> is_closed (heap w' y) = is_closed (heap w y)))"

definition callback_orderly ::
  "(oref \<Rightarrow> oref set) \<Rightarrow> (oref \<Rightarrow> world \<Rightarrow> error option \<times> world) \<Rightarrow> bool" where
  "callback_orderly S cb =
     (\<forall>order w. fst (cb order w) = None \<and> kept (S order) w (snd (cb order w)))"

definition callbacks_orderly :: "(oref \<Rightarrow> oref set) \<Rightarrow> callbacks \<Rightarrow> bool" where
  "callbacks_orderly S cbs =
     (callback_orderly S (trigger_stop_order cbs)
      \<and> callback_orderly S (fill_market_order cbs)
      \<and> callback_orderly S (fill_limit_order cbs))"

text \<open>Callbacks that return normally, leave type and side of every order alone and never
  reopen a closed order; and callbacks that moreover close no order but the one they are
  called on.\<close>

definition callbacks_never_reopen :: "callbacks \<Rightarrow> bool" where
  "callbacks_never_reopen cbs = callbacks_orderly (\<lambda>order. UNIV) cbs"

definition callbacks_close_own :: "callbacks \<Rightarrow> bool" where
  "callbacks_close_own cbs = callbacks_orderly (\<lambda>order. {order}) cbs"

text \<open>An order that \<open>match_order\<close> accepts: a type the dispatcher knows and a side of the
  enum.\<close>

definition matchable :: "world \<Rightarrow> oref \<Rightarrow> bool" where
  "matchable w x =
     (order_type (heap w x) \<noteq> MARKET \<and> (side (heap w x) = BUY \<or> side (heap w x) = SELL))"

definition outcome_ok :: "oref set \<Rightarrow> world \<Rightarrow> outcome \<Rightarrow> bool" where
  "outcome_ok S w r = (fst r = None \<and> kept S w (snd (snd r)))"

text \<open>The book of the sorted-lists example after a sweep has triggered the stop-limit
  order 1.\<close>

definition world_book_triggered :: world where
  "world_book_triggered = snd (snd (iterate engine_callbacks 0 world_book))"

section \<open>Predicates: claims C4 and C5\<close>

text \<open>
  Claim C4. For every price \<open>p\<close>, \<open>is_limit_matched(BUY, p)\<close> returns true iff the ask is
  initialized and \<open>ask_raw \<le> p.raw\<close>, and \<open>is_limit_matched(SELL, p)\<close> returns true iff the
  bid is initialized and \<open>bid_raw \<ge> p.raw\<close>. While the opposite side is uninitialized the
  predicate returns false whatever raw value is stored, so a fresh core matches no limit
  order at any price.
\<close>

theorem is_limit_matched_iff:
  "is_limit_matched c BUY p = Inr (is_ask_initialized c \<and> ask_raw c \<le> p)
   \<and> is_limit_matched c SELL p = Inr (is_bid_initialized c \<and> bid_raw c \<ge> p)
   \<and> is_limit_matched (c\<lparr>is_ask_initialized := False, ask_raw := v\<rparr>) BUY p = Inr False
   \<and> is_limit_matched (c\<lparr>is_bid_initialized := False, bid_raw := v\<rparr>) SELL p = Inr False
   \<and> is_limit_matched init_core BUY p = Inr False
   \<and> is_limit_matched init_core SELL p = Inr False"
  by (simp add: is_limit_matched_def init_core_def)

text \<open>
  Claim C5. The liquidity-side determination, called with
  \<open>(initial, side, price, trigger_price)\<close>, returns TAKER whenever \<open>initial\<close> is true;
  otherwise it returns MAKER iff the side is BUY and \<open>trigger_price.raw > price.raw\<close>, or
  the side is SELL and \<open>trigger_price.raw < price.raw\<close>, and TAKER in every other case.
\<close>

theorem determine_order_liquidity_rule:
  "determine_order_liquidity True sd p tp = TAKER
   \<and> (determine_order_liquidity False sd p tp = MAKER
        \<longleftrightarrow> sd = BUY \<and> tp > p \<or> sd = SELL \<and> tp < p)
   \<and> (determine_order_liquidity False sd p tp = TAKER
        \<longleftrightarrow> \<not> (sd = BUY \<and> tp > p \<or> sd = SELL \<and> tp < p))"
  by (simp add: determine_order_liquidity_def)

section \<open>Order index and side lists: claims C2, C8 and C10\<close>


lemma list_remove_absent: "\<not> order_in h a xs \<Longrightarrow> list_remove h a xs = xs"
  by (induction xs) (auto simp: order_in_def)

lemma list_remove_unique:
  "length (filter (\<lambda>x. order_eq h x a) xs) \<le> 1 \<Longrightarrow> \<not> order_in h a (list_remove h a xs)"
proof (induction xs)
  case Nil
  then show ?case by (simp add: order_in_def)
next
  case (Cons x xs)
  show ?case
  proof (cases "order_eq h x a")
    case True
    with Cons.prems have "filter (\<lambda>x. order_eq h x a) xs = []" by simp
    then have "\<not> order_in h a xs"
      by (simp add: order_in_def list_ex_iff filter_empty_conv)
    with True show ?thesis by simp
  next
    case False
    with Cons show ?thesis by (simp add: order_in_def)
  qed
qed

lemma list_remove_length: "order_in h a xs \<Longrightarrow> Suc (length (list_remove h a xs)) = length xs"
  by (induction xs) (auto simp: order_in_def)

lemma list_remove_count: "count_list xs y \<le> Suc (count_list (list_remove h a xs) y)"
  by (induction xs) auto

lemma orders_pop_absent:
  "orders c k = None \<Longrightarrow> c\<lparr>orders := (orders c)(k := None)\<rparr> = c"
  by (simp add: fun_upd_idem)

text \<open>
  Claim C2, as stated: with a side that is neither BUY nor SELL, \<open>add_order\<close> and
  \<open>delete_order\<close> raise and leave the index and both side lists as they were. It fails on
  the index: both methods write the dict before they look at the side. On a fresh core the
  failed \<open>add_order\<close> has created the entry, and the failed \<open>delete_order\<close> that follows has
  removed it.
\<close>

theorem invalid_side_mutates_index:
  "fst (add_order store_no_side 0 init_core) = Some RuntimeError
   \<and> \<not> order_exists init_core 0
   \<and> order_exists (snd (add_order store_no_side 0 init_core)) 0
   \<and> fst (delete_order store_no_side 0 (snd (add_order store_no_side 0 init_core)))
       = Some RuntimeError
   \<and> \<not> order_exists
         (snd (delete_order store_no_side 0 (snd (add_order store_no_side 0 init_core)))) 0"
  by (simp add: add_order_def delete_order_def store_no_side_def example_order_def
      init_core_def order_exists_def)

text \<open>
  Claim C2, amended: with a side that is neither BUY nor SELL, \<open>add_order\<close> and
  \<open>delete_order\<close> raise \<^verbatim>\<open>RuntimeError\<close> and leave both side lists and the prices as they
  were; the index has been written before the side is looked at, so \<open>add_order\<close> leaves
  the entry for the order's id set to the order and \<open>delete_order\<close> leaves it removed.
\<close>

theorem invalid_side_raises:
  assumes "side (h order) \<noteq> BUY" and "side (h order) \<noteq> SELL"
  shows "add_order h order c =
           (Some RuntimeError, c\<lparr>orders := (orders c)(client_order_id (h order) \<mapsto> order)\<rparr>)
         \<and> delete_order h order c =
           (Some RuntimeError, c\<lparr>orders := (orders c)(client_order_id (h order) := None)\<rparr>)
         \<and> orders_bid (snd (add_order h order c)) = orders_bid c
         \<and> orders_ask (snd (add_order h order c)) = orders_ask c
         \<and> orders_bid (snd (delete_order h order c)) = orders_bid c
         \<and> orders_ask (snd (delete_order h order c)) = orders_ask c"
  using assms by (simp add: add_order_def delete_order_def)

theorem invalid_side_raises_witness:
  "side (store_no_side 0) \<noteq> BUY \<and> side (store_no_side 0) \<noteq> SELL
   \<and> add_order store_no_side 0 init_core
       = (Some RuntimeError, init_core\<lparr>orders := [0 \<mapsto> 0]\<rparr>)
   \<and> delete_order store_no_side 0 (init_core\<lparr>orders := [0 \<mapsto> 0]\<rparr>)
       = (Some RuntimeError, init_core)"
  using invalid_side_raises [of store_no_side 0 init_core]
    invalid_side_raises [of store_no_side 0 "init_core\<lparr>orders := [0 \<mapsto> 0]\<rparr>"]
  by (simp add: store_no_side_def example_order_def init_core_def)

text \<open>
  Claim C8, as stated: for every order and every core state, \<open>delete_order\<close> twice leaves
  the same state as \<open>delete_order\<close> once. It fails in a state where the order is twice in
  its side list, which two calls of \<open>add_order\<close> produce: each \<open>delete_order\<close> removes one
  occurrence.
\<close>

theorem delete_order_twice_differs:
  "orders_bid core_added_twice = [0, 0]
   \<and> orders_bid (snd (delete_order store_one 0 core_added_twice)) = [0]
   \<and> orders_bid (snd (delete_order store_one 0
        (snd (delete_order store_one 0 core_added_twice)))) = []"
  by (simp add: core_added_twice_def core_added_once_def add_order_def delete_order_def
      store_one_def example_order_def init_core_def sort_bid_orders_def list_sort_def
      order_sort_key_def order_in_def order_eq_def)

text \<open>
  Claim C8, amended: in every core state where at most one element of the order's side
  list equals the order, \<open>delete_order\<close> twice has the same result as \<open>delete_order\<close> once;
  and on an order that is in neither the index nor the side lists it changes nothing.
\<close>

theorem delete_order_idempotent:
  assumes "side (h order) = BUY
             \<longrightarrow> length (filter (\<lambda>x. order_eq h x order) (orders_bid c)) \<le> 1"
    and "side (h order) = SELL
             \<longrightarrow> length (filter (\<lambda>x. order_eq h x order) (orders_ask c)) \<le> 1"
  shows "delete_order h order (snd (delete_order h order c)) = delete_order h order c
    \<and> (orders c (client_order_id (h order)) = None \<and> \<not> order_in h order (orders_bid c)
         \<and> \<not> order_in h order (orders_ask c) \<longrightarrow> snd (delete_order h order c) = c)"
  using assms
  by (auto simp: delete_order_def Let_def list_remove_unique list_remove_absent
      orders_pop_absent)

theorem delete_order_idempotent_witness:
  "orders_bid core_added_once = [0]
   \<and> length (filter (\<lambda>x. order_eq store_one x 0) (orders_bid core_added_once)) \<le> 1
   \<and> delete_order store_one 0 (snd (delete_order store_one 0 core_added_once))
       = delete_order store_one 0 core_added_once
   \<and> snd (delete_order store_one 0 core_added_once) = init_core
   \<and> snd (delete_order store_one 0 init_core) = init_core"
  using delete_order_idempotent [of store_one 0 core_added_once]
    delete_order_idempotent [of store_one 0 init_core]
  by (simp add: core_added_once_def add_order_def delete_order_def
      store_one_def example_order_def init_core_def sort_bid_orders_def list_sort_def
      order_sort_key_def order_in_def order_eq_def)

subsection \<open>Sorting keeps the elements\<close>

lemma order_sort_key_ok: "order_type ord \<noteq> MARKET \<Longrightarrow> \<exists>k. order_sort_key ord = Inr k"
  by (cases "order_type ord") (simp_all add: order_sort_key_def)

lemma keyed_ok: "sortable h xs \<Longrightarrow> \<exists>kxs. keyed h xs = Inr kxs"
proof (induction xs)
  case Nil
  then show ?case by simp
next
  case (Cons x xs)
  then obtain kxs where "keyed h xs = Inr kxs" by (auto simp: sortable_def)
  moreover from Cons.prems obtain k where "order_sort_key (h x) = Inr k"
    using order_sort_key_ok [of "h x"] by (auto simp: sortable_def)
  ultimately show ?case by simp
qed

lemma keyed_snd: "keyed h xs = Inr kxs \<Longrightarrow> map snd kxs = xs"
  by (induction xs arbitrary: kxs) (auto split: sum.splits)

lemma list_sort_mset: "list_sort h r xs = Inr ys \<Longrightarrow> mset ys = mset xs"
proof -
  assume a: "list_sort h r xs = Inr ys"
  then obtain kxs where k: "keyed h xs = Inr kxs"
    and ys: "ys = map snd (sort_key (\<lambda>kx. if r then - fst kx else fst kx) kxs)"
    by (auto simp: list_sort_def split: sum.splits)
  have "mset ys = image_mset snd (mset kxs)" by (simp add: ys)
  also have "\<dots> = mset (map snd kxs)" by simp
  finally show ?thesis by (simp add: keyed_snd [OF k])
qed

lemma list_sort_ok: "sortable h xs \<Longrightarrow> \<exists>ys. list_sort h r xs = Inr ys"
  using keyed_ok [of h xs] by (auto simp: list_sort_def)

lemma sortable_mset: "mset ys = mset xs \<Longrightarrow> sortable h ys = sortable h xs"
  by (auto simp: sortable_def list_all_iff dest: mset_eq_setD)

lemma sort_twice:
  assumes "sortable h xs" and "order_type (h order) \<noteq> MARKET"
  shows "\<exists>ys1 ys2. list_sort h r (xs @ [order]) = Inr ys1
           \<and> list_sort h r (ys1 @ [order]) = Inr ys2
           \<and> mset ys2 = mset xs + {#order, order#}"
proof -
  from assms have s1: "sortable h (xs @ [order])" by (simp add: sortable_def)
  then obtain ys1 where y1: "list_sort h r (xs @ [order]) = Inr ys1"
    using list_sort_ok by blast
  then have m1: "mset ys1 = mset (xs @ [order])" by (rule list_sort_mset)
  have "sortable h ys1" using sortable_mset [OF m1, of h] s1 by blast
  with assms(2) have "sortable h (ys1 @ [order])" by (simp add: sortable_def)
  then obtain ys2 where y2: "list_sort h r (ys1 @ [order]) = Inr ys2"
    using list_sort_ok by blast
  then have "mset ys2 = mset (ys1 @ [order])" by (rule list_sort_mset)
  then have "mset ys2 = mset ys1 + {#order#}" by simp
  also have "\<dots> = mset xs + {#order, order#}" by (simp add: m1)
  finally have "mset ys2 = mset xs + {#order, order#}" .
  with y1 y2 show ?thesis by blast
qed

lemma count_list_mset_eq:
  "mset ys = mset xs + {#a, a#} \<Longrightarrow> count_list ys a = count_list xs a + 2"
proof -
  assume "mset ys = mset xs + {#a, a#}"
  then have "count (mset ys) a = count (mset xs + {#a, a#}) a" by simp
  then show ?thesis by (simp add: count_mset)
qed

text \<open>
  Claim C10. \<open>add_order\<close> does not deduplicate: after two calls with the same order, the
  order is twice more in its side list while the index holds the one entry for its id; one
  \<open>delete_order\<close> then removes the index entry and a single element of the list, so that
  \<open>order_exists\<close> is false while the order is still in \<open>get_orders_bid()\<close> or
  \<open>get_orders_ask()\<close>. The calls return normally when the side is BUY or SELL and the sort
  key is defined for the order and for the orders already in its side list.
\<close>

theorem add_order_no_dedup:
  assumes sd: "side (h order) = BUY \<or> side (h order) = SELL"
    and ty: "order_type (h order) \<noteq> MARKET"
    and ok: "sortable h (side_book h order c)"
  shows "\<exists>c1 c2 c3.
           add_order h order c = (None, c1) \<and> add_order h order c1 = (None, c2)
         \<and> count_list (side_book h order c2) order = count_list (side_book h order c) order + 2
         \<and> get_order c2 (client_order_id (h order)) = Some order
         \<and> delete_order h order c2 = (None, c3)
         \<and> \<not> order_exists c3 (client_order_id (h order))
         \<and> length (side_book h order c3) = length (side_book h order c) + 1
         \<and> order \<in> set (get_orders_bid c3) \<union> set (get_orders_ask c3)"
proof -
  let ?r = "side (h order) = BUY"
  let ?xs = "side_book h order c"
  from sort_twice [OF ok ty, of ?r] obtain ys1 ys2 where
    y1: "list_sort h ?r (?xs @ [order]) = Inr ys1" and
    y2: "list_sort h ?r (ys1 @ [order]) = Inr ys2" and
    m: "mset ys2 = mset ?xs + {#order, order#}" by blast
  from m have cnt: "count_list ys2 order = count_list ?xs order + 2" by (rule count_list_mset_eq)
  have "size (mset ys2) = size (mset ?xs + {#order, order#})" by (simp only: m)
  then have len: "length ys2 = length ?xs + 2" by simp
  from cnt have "count_list ys2 order \<noteq> 0" by simp
  then have "order \<in> set ys2" by (simp add: count_list_0_iff)
  then have inn: "order_in h order ys2" by (auto simp: order_in_def list_ex_iff order_eq_def)
  have rl: "length (list_remove h order ys2) = length ?xs + 1"
    using list_remove_length [OF inn] len by simp
  have "count_list ys2 order \<le> Suc (count_list (list_remove h order ys2) order)"
    by (rule list_remove_count)
  with cnt have "count_list (list_remove h order ys2) order \<noteq> 0" by simp
  then have rin: "order \<in> set (list_remove h order ys2)" by (simp add: count_list_0_iff)
  show ?thesis
  proof (cases ?r)
    case True
    with y1 y2 cnt rl rin inn show ?thesis
      by (simp add: add_order_def delete_order_def sort_bid_orders_def side_book_def
          get_order_def order_exists_def get_orders_bid_def)
  next
    case False
    with sd have s: "side (h order) = SELL" by simp
    with y1 y2 cnt rl rin inn show ?thesis
      by (simp add: add_order_def delete_order_def sort_ask_orders_def side_book_def
          get_order_def order_exists_def get_orders_ask_def)
  qed
qed

text \<open>The claim at a fresh core and a limit buy order: the list goes \<open>[]\<close>, \<open>[0]\<close>,
  \<open>[0, 0]\<close>, and back to \<open>[0]\<close> with the index empty.\<close>

theorem add_order_no_dedup_witness:
  "side (store_one 0) = BUY \<and> order_type (store_one 0) \<noteq> MARKET
   \<and> sortable store_one (side_book store_one 0 init_core)
   \<and> (\<exists>c1 c2 c3.
         add_order store_one 0 init_core = (None, c1) \<and> add_order store_one 0 c1 = (None, c2)
       \<and> orders_bid c2 = [0, 0]
       \<and> get_order c2 0 = Some 0
       \<and> delete_order store_one 0 c2 = (None, c3)
       \<and> \<not> order_exists c3 0
       \<and> get_orders_bid c3 = [0])"
proof -
  have h: "side (store_one 0) = BUY \<or> side (store_one 0) = SELL"
    "order_type (store_one 0) \<noteq> MARKET"
    "sortable store_one (side_book store_one 0 init_core)"
    by (simp_all add: store_one_def example_order_def sortable_def side_book_def init_core_def)
  from add_order_no_dedup [OF h] obtain c1 c2 c3 where
    a: "add_order store_one 0 init_core = (None, c1)" "add_order store_one 0 c1 = (None, c2)"
      "delete_order store_one 0 c2 = (None, c3)"
      "get_order c2 (client_order_id (store_one 0)) = Some 0"
      "\<not> order_exists c3 (client_order_id (store_one 0))"
    by blast
  have c1: "c1 = core_added_once" using a(1) by (simp add: core_added_once_def)
  have c2: "c2 = core_added_twice" using a(2) by (simp add: core_added_twice_def c1)
  have b2: "orders_bid core_added_twice = [0, 0]"
    by (simp add: core_added_twice_def core_added_once_def add_order_def
      store_one_def example_order_def init_core_def sort_bid_orders_def list_sort_def
      order_sort_key_def)
  have b3: "get_orders_bid (snd (delete_order store_one 0 core_added_twice)) = [0]"
    by (simp add: get_orders_bid_def delete_order_def b2 order_in_def order_eq_def
      store_one_def example_order_def)
  have "get_orders_bid c3 = [0]" using a(3) b3 c2 by simp
  moreover have "client_order_id (store_one 0) = 0" by (simp add: store_one_def example_order_def)
  ultimately show ?thesis using h(2,3) a b2 c2
    by (auto simp: store_one_def example_order_def)
qed

section \<open>Stop-limit and limit-if-touched orders: claims C3 and C6\<close>

text \<open>What follows the two writes to the order in both matchers: the trigger callback, then
  the check whether the order is immediately marketable.\<close>

lemma trigger_then_fill:
  "then_do (call_trigger_stop_order cbs order w2) (fill_if_limit_matched cbs order TAKER) =
     (case trigger_stop_order cbs order w2 of
        (Some e, w3) \<Rightarrow> (Some e, [TriggerStopOrder order], w3)
      | (None, w3) \<Rightarrow>
          (case is_limit_matched (core w3) (side (heap w3 order)) (price (heap w3 order)) of
             Inl e \<Rightarrow> (Some e, [TriggerStopOrder order], w3)
           | Inr matched \<Rightarrow>
               if matched then
                 (case fill_limit_order cbs order
                         (w3\<lparr>heap := (heap w3)(order :=
                            (heap w3 order)\<lparr>liquidity_side := TAKER\<rparr>)\<rparr>) of
                    (e5, w5) \<Rightarrow>
                      (e5, [TriggerStopOrder order, SetLiquiditySide order TAKER,
                            FillLimitOrder order], w5))
               else (None, [TriggerStopOrder order], w3)))"
  by (simp add: then_do_def call_trigger_stop_order_def fill_if_limit_matched_def
      set_liquidity_side_def call_fill_limit_order_def
      split: prod.splits option.splits sum.splits)

text \<open>
  Claim C3. For a STOP_LIMIT or TRAILING_STOP_LIMIT order that is not triggered,
  \<open>match_stop_limit_order\<close> does nothing unless \<open>is_stop_triggered(side, trigger_price)\<close>
  holds. When it holds, the core does exactly this, in this order: it sets the order's
  triggered price to \<open>trigger_price\<close>, assigns \<open>liquidity_side\<close> by the determination rule
  and calls \<open>trigger_stop_order(order)\<close>; then, if \<open>is_limit_matched(side, price)\<close> holds in
  the state the callback left, it overwrites \<open>liquidity_side\<close> with TAKER and calls
  \<open>fill_limit_order(order)\<close>, and if it does not hold, no fill callback is called. (An
  exception raised by the trigger callback, or by the predicate on a side outside the enum,
  ends the call at that step.)
\<close>

theorem match_stop_limit_order_steps:
  assumes nt: "\<not> is_triggered (heap w order)"
  shows
    "(order_type (heap w order) = STOP_LIMIT \<or> order_type (heap w order) = TRAILING_STOP_LIMIT
        \<longrightarrow> dispatch cbs order initial w = match_stop_limit_order cbs order initial w)
     \<and> (is_stop_triggered (core w) (side (heap w order)) (trigger_price (heap w order)) \<noteq> Inr True
        \<longrightarrow> snd (match_stop_limit_order cbs order initial w) = ([], w))
     \<and> (is_stop_triggered (core w) (side (heap w order)) (trigger_price (heap w order)) = Inr False
        \<longrightarrow> match_stop_limit_order cbs order initial w = (None, [], w))
     \<and> (is_stop_triggered (core w) (side (heap w order)) (trigger_price (heap w order)) = Inr True
        \<longrightarrow> match_stop_limit_order cbs order initial w =
          (let tp = trigger_price (heap w order);
               l = determine_order_liquidity initial (side (heap w order)) (price (heap w order)) tp;
               w2 = w\<lparr>heap := (heap w)(order :=
                       (heap w order)\<lparr>triggered_price := Some tp, liquidity_side := l\<rparr>)\<rparr>;
               steps = [SetTriggeredPrice order tp, SetLiquiditySide order l,
                        TriggerStopOrder order]
           in case trigger_stop_order cbs order w2 of
                (Some e, w3) \<Rightarrow> (Some e, steps, w3)
              | (None, w3) \<Rightarrow>
                  (case is_limit_matched (core w3) (side (heap w3 order)) (price (heap w3 order)) of
                     Inl e \<Rightarrow> (Some e, steps, w3)
                   | Inr matched \<Rightarrow>
                       if matched then
                         (case fill_limit_order cbs order
                                 (w3\<lparr>heap := (heap w3)(order :=
                                    (heap w3 order)\<lparr>liquidity_side := TAKER\<rparr>)\<rparr>) of
                            (e5, w5) \<Rightarrow>
                              (e5, steps @ [SetLiquiditySide order TAKER, FillLimitOrder order], w5))
                       else (None, steps, w3))))"
    (is "?A \<and> ?B \<and> ?B' \<and> (?T \<longrightarrow> ?R)")
proof -
  have a: ?A by (auto simp: dispatch_def)
  have b: ?B using nt by (simp add: match_stop_limit_order_def split: sum.splits)
  have b': ?B' using nt by (simp add: match_stop_limit_order_def)
  have c: "?T \<longrightarrow> ?R"
  proof
    assume t: ?T
    let ?tp = "trigger_price (heap w order)"
    let ?l = "determine_order_liquidity initial (side (heap w order)) (price (heap w order)) ?tp"
    let ?w2 = "w\<lparr>heap := (heap w)(order :=
                 (heap w order)\<lparr>triggered_price := Some ?tp, liquidity_side := ?l\<rparr>)\<rparr>"
    have m: "match_stop_limit_order cbs order initial w =
      (case then_do (call_trigger_stop_order cbs order ?w2) (fill_if_limit_matched cbs order TAKER)
       of (e, evs, w') \<Rightarrow> (e, [SetTriggeredPrice order ?tp, SetLiquiditySide order ?l] @ evs, w'))"
      using nt t
      by (simp add: match_stop_limit_order_def then_do_def set_triggered_price_c_def
          set_liquidity_side_def split: prod.splits)
    obtain e3 w3 where r3: "trigger_stop_order cbs order ?w2 = (e3, w3)" by fastforce
    show ?R
    proof (cases e3)
      case (Some e)
      with r3 show ?thesis by (simp add: m trigger_then_fill Let_def)
    next
      case None
      show ?thesis
      proof (cases "is_limit_matched (core w3) (side (heap w3 order)) (price (heap w3 order))")
        case (Inl e)
        with None r3 show ?thesis by (simp add: m trigger_then_fill Let_def)
      next
        case (Inr matched)
        with None r3 show ?thesis
          by (simp add: m trigger_then_fill Let_def split: prod.splits)
      qed
    qed
  qed
  from a b b' c show ?thesis by blast
qed

text \<open>
  The claim on the stop-limit buy: the stop fires (ask 10100 is at or above the trigger
  10050), the rule gives TAKER, the callback marks the order triggered, the limit 10200 is
  marketable, so the order is filled as TAKER. With the ask at 9900 nothing happens.
\<close>

theorem match_stop_limit_order_steps_witness:
  "\<not> is_triggered (heap world_stop_limit 0)
   \<and> order_type (heap world_stop_limit 0) = STOP_LIMIT
   \<and> is_stop_triggered (core world_stop_limit) BUY 10050 = Inr True
   \<and> fst (dispatch engine_callbacks 0 False world_stop_limit) = None
   \<and> fst (snd (dispatch engine_callbacks 0 False world_stop_limit)) =
        [SetTriggeredPrice 0 10050, SetLiquiditySide 0 TAKER, TriggerStopOrder 0,
         SetLiquiditySide 0 TAKER, FillLimitOrder 0]
   \<and> heap (snd (snd (dispatch engine_callbacks 0 False world_stop_limit))) 0 =
        stop_limit_buy\<lparr>triggered_price := Some 10050, liquidity_side := TAKER,
          is_triggered := True, is_closed := True\<rparr>
   \<and> is_stop_triggered (set_ask_raw 9900 init_core) BUY 10050 = Inr False
   \<and> match_stop_limit_order engine_callbacks 0 False
        (world_stop_limit\<lparr>core := set_ask_raw 9900 init_core\<rparr>)
        = (None, [], world_stop_limit\<lparr>core := set_ask_raw 9900 init_core\<rparr>)"
  using match_stop_limit_order_steps [of world_stop_limit 0 engine_callbacks False]
    match_stop_limit_order_steps
      [of "world_stop_limit\<lparr>core := set_ask_raw 9900 init_core\<rparr>" 0 engine_callbacks False]
  by (simp add: world_stop_limit_def stop_limit_buy_def example_order_def engine_callbacks_def
      mark_triggered_def close_order_def set_ask_raw_def set_bid_raw_def init_core_def
      is_stop_triggered_def is_limit_matched_def determine_order_liquidity_def Let_def
      match_stop_limit_order_def)

lemma trigger_then_fill_events:
  "filter is_set_triggered_price
     (fst (snd (then_do (call_trigger_stop_order cbs order w2)
                  (fill_if_limit_matched cbs order TAKER)))) = []
   \<and> TriggerStopOrder order
       \<in> set (fst (snd (then_do (call_trigger_stop_order cbs order w2)
                          (fill_if_limit_matched cbs order TAKER))))"
  by (simp add: trigger_then_fill split: prod.splits option.splits sum.splits)

text \<open>The same with the events of the steps before the trigger in front.\<close>

lemma steps_then_trigger_then_fill:
  assumes "steps = before @ [TriggerStopOrder order]"
  shows
  "(case then_do (call_trigger_stop_order cbs order w2) (fill_if_limit_matched cbs order TAKER)
    of (e, evs, w') \<Rightarrow> (e, before @ evs, w')) =
     (case trigger_stop_order cbs order w2 of
        (Some e, w3) \<Rightarrow> (Some e, steps, w3)
      | (None, w3) \<Rightarrow>
          (case is_limit_matched (core w3) (side (heap w3 order)) (price (heap w3 order)) of
             Inl e \<Rightarrow> (Some e, steps, w3)
           | Inr matched \<Rightarrow>
               if matched then
                 (case fill_limit_order cbs order
                         (w3\<lparr>heap := (heap w3)(order :=
                            (heap w3 order)\<lparr>liquidity_side := TAKER\<rparr>)\<rparr>) of
                    (e5, w5) \<Rightarrow>
                      (e5, steps @ [SetLiquiditySide order TAKER, FillLimitOrder order], w5))
               else (None, steps, w3)))"
proof -
  obtain e3 w3 where r3: "trigger_stop_order cbs order w2 = (e3, w3)" by fastforce
  show ?thesis
  proof (cases e3)
    case (Some e)
    with r3 assms show ?thesis by (simp add: trigger_then_fill)
  next
    case None
    show ?thesis
    proof (cases "is_limit_matched (core w3) (side (heap w3 order)) (price (heap w3 order))")
      case (Inl e)
      with None r3 assms show ?thesis by (simp add: trigger_then_fill)
    next
      case (Inr matched)
      with None r3 assms show ?thesis by (simp add: trigger_then_fill split: prod.splits)
    qed
  qed
qed

text \<open>
  Claim C6. For an untriggered LIMIT_IF_TOUCHED order whose touch condition holds,
  \<open>match_limit_if_touched_order\<close> calls \<open>set_triggered_price(trigger_price)\<close> iff \<open>initial\<close>
  is false. Whatever \<open>initial\<close> is, the liquidity side is then assigned by the determination
  rule and the trigger callback is called (with \<open>initial\<close> true on a world where the order's
  triggered price is as it was), and the fill logic runs: if \<open>is_limit_matched(side, price)\<close>
  holds in the world the callback left, \<open>liquidity_side\<close> is overwritten with TAKER and
  \<open>fill_limit_order(order)\<close> is called, otherwise no fill callback is called. A stop-limit
  order has its triggered price set on activation whatever \<open>initial\<close> is.
\<close>

theorem limit_if_touched_triggered_price:
  assumes nt: "\<not> is_triggered (heap w order)"
  shows
    "(order_type (heap w order) = LIMIT_IF_TOUCHED
        \<longrightarrow> dispatch cbs order initial w = match_limit_if_touched_order cbs order initial w)
     \<and> (is_touch_triggered (core w) (side (heap w order)) (trigger_price (heap w order)) = Inr True
        \<longrightarrow>
          match_limit_if_touched_order cbs order initial w =
            (let tp = trigger_price (heap w order);
                 l = determine_order_liquidity initial (side (heap w order))
                       (price (heap w order)) tp;
                 w1 = (if initial then w
                       else w\<lparr>heap := (heap w)(order :=
                              (heap w order)\<lparr>triggered_price := Some tp\<rparr>)\<rparr>);
                 w2 = w1\<lparr>heap := (heap w1)(order := (heap w1 order)\<lparr>liquidity_side := l\<rparr>)\<rparr>;
                 steps = (if initial then [] else [SetTriggeredPrice order tp])
                           @ [SetLiquiditySide order l, TriggerStopOrder order]
             in case trigger_stop_order cbs order w2 of
                  (Some e, w3) \<Rightarrow> (Some e, steps, w3)
                | (None, w3) \<Rightarrow>
                    (case is_limit_matched (core w3) (side (heap w3 order))
                            (price (heap w3 order)) of
                       Inl e \<Rightarrow> (Some e, steps, w3)
                     | Inr matched \<Rightarrow>
                         if matched then
                           (case fill_limit_order cbs order
                                   (w3\<lparr>heap := (heap w3)(order :=
                                      (heap w3 order)\<lparr>liquidity_side := TAKER\<rparr>)\<rparr>) of
                              (e5, w5) \<Rightarrow>
                                (e5, steps @ [SetLiquiditySide order TAKER,
                                              FillLimitOrder order], w5))
                         else (None, steps, w3)))
          \<and> filter is_set_triggered_price
                (fst (snd (match_limit_if_touched_order cbs order initial w)))
              = (if initial then [] else [SetTriggeredPrice order (trigger_price (heap w order))])
          \<and> TriggerStopOrder order
                \<in> set (fst (snd (match_limit_if_touched_order cbs order initial w))))
     \<and> (is_stop_triggered (core w) (side (heap w order)) (trigger_price (heap w order)) = Inr True
        \<longrightarrow> filter is_set_triggered_price
                (fst (snd (match_stop_limit_order cbs order initial w)))
              = [SetTriggeredPrice order (trigger_price (heap w order))])"
    (is "?A \<and> (?T \<longrightarrow> ?R1 \<and> ?R2 \<and> ?R3) \<and> (?S \<longrightarrow> ?R4)")
proof -
  let ?tp = "trigger_price (heap w order)"
  let ?l = "determine_order_liquidity initial (side (heap w order)) (price (heap w order)) ?tp"
  let ?w1 = "if initial then w
             else w\<lparr>heap := (heap w)(order := (heap w order)\<lparr>triggered_price := Some ?tp\<rparr>)\<rparr>"
  let ?w2 = "?w1\<lparr>heap := (heap ?w1)(order := (heap ?w1 order)\<lparr>liquidity_side := ?l\<rparr>)\<rparr>"
  let ?before = "(if initial then [] else [SetTriggeredPrice order ?tp])
                   @ [SetLiquiditySide order ?l]"
  have a: ?A by (auto simp: dispatch_def)
  have m: "match_limit_if_touched_order cbs order initial w =
      (case then_do (call_trigger_stop_order cbs order ?w2) (fill_if_limit_matched cbs order TAKER)
       of (e, evs, w') \<Rightarrow> (e, ?before @ evs, w'))" if ?T
    using nt that
    by (simp add: match_limit_if_touched_order_def then_do_def set_triggered_price_c_def
        set_liquidity_side_def Let_def split: prod.splits)
  have r1: ?R1 if t: ?T
    unfolding Let_def m [OF t] by (rule steps_then_trigger_then_fill) simp
  have r23: "?R2 \<and> ?R3" if t: ?T
  proof -
    obtain e evs w' where
      r: "then_do (call_trigger_stop_order cbs order ?w2) (fill_if_limit_matched cbs order TAKER)
            = (e, evs, w')"
      using prod_cases3 by blast
    from trigger_then_fill_events [of cbs order ?w2] r
    have ev: "filter is_set_triggered_price evs = []" "TriggerStopOrder order \<in> set evs"
      by simp_all
    from m [OF t] r
    have "fst (snd (match_limit_if_touched_order cbs order initial w)) = ?before @ evs"
      by simp
    with ev show ?thesis by simp
  qed
  have r4: ?R4 if s: ?S
  proof -
    let ?v2 = "w\<lparr>heap := (heap w)(order :=
                 (heap w order)\<lparr>triggered_price := Some ?tp, liquidity_side := ?l\<rparr>)\<rparr>"
    have ms: "match_stop_limit_order cbs order initial w =
      (case then_do (call_trigger_stop_order cbs order ?v2) (fill_if_limit_matched cbs order TAKER)
       of (e, evs, w') \<Rightarrow> (e, [SetTriggeredPrice order ?tp, SetLiquiditySide order ?l] @ evs, w'))"
      using nt s
      by (simp add: match_stop_limit_order_def then_do_def set_triggered_price_c_def
          set_liquidity_side_def split: prod.splits)
    obtain e evs w' where
      r: "then_do (call_trigger_stop_order cbs order ?v2) (fill_if_limit_matched cbs order TAKER)
            = (e, evs, w')"
      using prod_cases3 by blast
    from trigger_then_fill_events [of cbs order ?v2] r
    have "filter is_set_triggered_price evs = []" by simp
    with ms r show ?thesis by simp
  qed
  from a r1 r23 r4 show ?thesis by blast
qed

text \<open>
  The claim on two limit-if-touched buys with the ask 10000 below the trigger 10050. The
  one with limit 10020 is marketable: on the initial match it is triggered as TAKER, its
  triggered price stays unset, and it is filled as TAKER; otherwise its triggered price is
  set to 10050, it is triggered as MAKER and filled as TAKER. The one with limit 9950 is not
  marketable: it is triggered and not filled. The stop-limit buy gets its triggered price
  on the initial match too.
\<close>

theorem limit_if_touched_triggered_price_witness:
  "\<not> is_triggered (heap world_limit_if_touched_marketable 0)
   \<and> order_type (heap world_limit_if_touched_marketable 0) = LIMIT_IF_TOUCHED
   \<and> is_touch_triggered (core world_limit_if_touched_marketable) BUY 10050 = Inr True
   \<and> dispatch engine_callbacks 0 True world_limit_if_touched_marketable =
       (None, [SetLiquiditySide 0 TAKER, TriggerStopOrder 0,
               SetLiquiditySide 0 TAKER, FillLimitOrder 0],
        world_limit_if_touched_marketable\<lparr>heap := (heap world_limit_if_touched_marketable)
          (0 := limit_if_touched_marketable\<lparr>liquidity_side := TAKER, is_triggered := True,
                  is_closed := True\<rparr>)\<rparr>)
   \<and> dispatch engine_callbacks 0 False world_limit_if_touched_marketable =
       (None, [SetTriggeredPrice 0 10050, SetLiquiditySide 0 MAKER, TriggerStopOrder 0,
               SetLiquiditySide 0 TAKER, FillLimitOrder 0],
        world_limit_if_touched_marketable\<lparr>heap := (heap world_limit_if_touched_marketable)
          (0 := limit_if_touched_marketable\<lparr>triggered_price := Some 10050,
                  liquidity_side := TAKER, is_triggered := True, is_closed := True\<rparr>)\<rparr>)
   \<and> \<not> is_triggered (heap world_limit_if_touched 0)
   \<and> is_touch_triggered (core world_limit_if_touched) BUY 10050 = Inr True
   \<and> dispatch engine_callbacks 0 True world_limit_if_touched =
       (None, [SetLiquiditySide 0 TAKER, TriggerStopOrder 0],
        world_limit_if_touched\<lparr>heap := (heap world_limit_if_touched)
          (0 := limit_if_touched_buy\<lparr>liquidity_side := TAKER, is_triggered := True\<rparr>)\<rparr>)
   \<and> dispatch engine_callbacks 0 False world_limit_if_touched =
       (None, [SetTriggeredPrice 0 10050, SetLiquiditySide 0 MAKER, TriggerStopOrder 0],
        world_limit_if_touched\<lparr>heap := (heap world_limit_if_touched)
          (0 := limit_if_touched_buy\<lparr>triggered_price := Some 10050, liquidity_side := MAKER,
                  is_triggered := True\<rparr>)\<rparr>)
   \<and> is_stop_triggered (core world_stop_limit) BUY 10050 = Inr True
   \<and> filter is_set_triggered_price
        (fst (snd (match_stop_limit_order engine_callbacks 0 True world_stop_limit)))
       = [SetTriggeredPrice 0 10050]"
  using limit_if_touched_triggered_price [of world_limit_if_touched_marketable 0 engine_callbacks True]
    limit_if_touched_triggered_price [of world_limit_if_touched_marketable 0 engine_callbacks False]
    limit_if_touched_triggered_price [of world_limit_if_touched 0 engine_callbacks True]
    limit_if_touched_triggered_price [of world_limit_if_touched 0 engine_callbacks False]
    limit_if_touched_triggered_price [of world_stop_limit 0 engine_callbacks True]
  by (simp add: world_limit_if_touched_def limit_if_touched_buy_def
      world_limit_if_touched_marketable_def limit_if_touched_marketable_def
      world_stop_limit_def stop_limit_buy_def example_order_def engine_callbacks_def
      mark_triggered_def close_order_def set_ask_raw_def set_bid_raw_def init_core_def
      is_touch_triggered_def is_stop_triggered_def is_limit_matched_def
      determine_order_liquidity_def Let_def trigger_then_fill)

section \<open>The last price: claim C9\<close>

lemma differ_only_in_last_fields:
  assumes "differ_only_in_last c1 c2"
  shows "bid_raw c2 = bid_raw c1" "ask_raw c2 = ask_raw c1"
    "is_bid_initialized c2 = is_bid_initialized c1"
    "is_ask_initialized c2 = is_ask_initialized c1"
    "orders c2 = orders c1" "orders_bid c2 = orders_bid c1" "orders_ask c2 = orders_ask c1"
proof -
  from assms have e: "c2 = c1\<lparr>last_raw := last_raw c2, is_last_initialized := is_last_initialized c2\<rparr>"
    by (simp add: differ_only_in_last_def)
  show "bid_raw c2 = bid_raw c1" by (subst e) simp
  show "ask_raw c2 = ask_raw c1" by (subst e) simp
  show "is_bid_initialized c2 = is_bid_initialized c1" by (subst e) simp
  show "is_ask_initialized c2 = is_ask_initialized c1" by (subst e) simp
  show "orders c2 = orders c1" by (subst e) simp
  show "orders_bid c2 = orders_bid c1" by (subst e) simp
  show "orders_ask c2 = orders_ask c1" by (subst e) simp
qed

lemma predicates_ignore_last:
  assumes "differ_only_in_last c1 c2"
  shows "is_limit_matched c2 sd p = is_limit_matched c1 sd p"
    and "is_stop_triggered c2 sd p = is_stop_triggered c1 sd p"
    and "is_touch_triggered c2 sd p = is_touch_triggered c1 sd p"
  using differ_only_in_last_fields [OF assms]
  by (simp_all add: is_limit_matched_def is_stop_triggered_def is_touch_triggered_def)

lemma same_outcome_stop:
  "worlds_differ_only_in_last w1 w2 \<Longrightarrow> same_outcome (e, evs, w1) (e, evs, w2)"
  by (simp add: same_outcome_def)

lemma then_do_Some: "then_do (Some e, evs, w) f = (Some e, evs, w)"
  by (simp add: then_do_def)

lemma then_do_None:
  "then_do (None, evs, w) f = (case f w of (e', evs', w') \<Rightarrow> (e', evs @ evs', w'))"
  by (simp add: then_do_def)

lemma same_outcome_then_do:
  assumes "same_outcome r1 r2"
    and "\<And>w1 w2. worlds_differ_only_in_last w1 w2 \<Longrightarrow> same_outcome (f1 w1) (f2 w2)"
  shows "same_outcome (then_do r1 f1) (then_do r2 f2)"
proof -
  obtain e evs w1 where r1: "r1 = (e, evs, w1)" using prod_cases3 by blast
  with assms(1) obtain w2 where r2: "r2 = (e, evs, w2)"
    and d: "worlds_differ_only_in_last w1 w2"
    by (cases r2) (auto simp: same_outcome_def)
  show ?thesis
  proof (cases e)
    case (Some e')
    with d show ?thesis unfolding r1 r2 by (simp add: same_outcome_def then_do_Some)
  next
    case None
    from assms(2) [OF d] have "same_outcome (f1 w1) (f2 w2)" .
    with None show ?thesis unfolding r1 r2
      by (auto simp: same_outcome_def then_do_None split: prod.splits)
  qed
qed


lemma same_outcome_set_triggered_price:
  "worlds_differ_only_in_last w1 w2 \<Longrightarrow>
   same_outcome (set_triggered_price_c order p w1) (set_triggered_price_c order p w2)"
  by (simp add: set_triggered_price_c_def same_outcome_def worlds_differ_only_in_last_def)

lemma same_outcome_set_liquidity_side:
  "worlds_differ_only_in_last w1 w2 \<Longrightarrow>
   same_outcome (set_liquidity_side order l w1) (set_liquidity_side order l w2)"
  by (simp add: set_liquidity_side_def same_outcome_def worlds_differ_only_in_last_def)

lemma same_outcome_callback:
  assumes "callback_ignores_last cb" and "worlds_differ_only_in_last w1 w2"
  shows "same_outcome (case cb order w1 of (e, w') \<Rightarrow> (e, evs, w'))
           (case cb order w2 of (e, w') \<Rightarrow> (e, evs, w'))"
proof -
  from assms have "fst (cb order w1) = fst (cb order w2)"
    and "worlds_differ_only_in_last (snd (cb order w1)) (snd (cb order w2))"
    by (simp_all add: callback_ignores_last_def)
  then show ?thesis
    by (cases "cb order w1"; cases "cb order w2") (simp add: same_outcome_def)
qed

lemma same_outcome_calls:
  assumes "callbacks_ignore_last cbs" and "worlds_differ_only_in_last w1 w2"
  shows "same_outcome (call_trigger_stop_order cbs order w1) (call_trigger_stop_order cbs order w2)"
    and "same_outcome (call_fill_market_order cbs order w1) (call_fill_market_order cbs order w2)"
    and "same_outcome (call_fill_limit_order cbs order w1) (call_fill_limit_order cbs order w2)"
  using assms
  by (simp_all add: callbacks_ignore_last_def call_trigger_stop_order_def
      call_fill_market_order_def call_fill_limit_order_def same_outcome_callback)

lemma same_outcome_fill_if_limit_matched:
  assumes cb: "callbacks_ignore_last cbs" and d: "worlds_differ_only_in_last w1 w2"
  shows "same_outcome (fill_if_limit_matched cbs order l w1) (fill_if_limit_matched cbs order l w2)"
proof -
  from d have h: "heap w2 = heap w1" and c: "differ_only_in_last (core w1) (core w2)"
    by (simp_all add: worlds_differ_only_in_last_def)
  have p: "is_limit_matched (core w2) (side (heap w1 order)) (price (heap w1 order))
         = is_limit_matched (core w1) (side (heap w1 order)) (price (heap w1 order))"
    by (rule predicates_ignore_last [OF c])
  show ?thesis
  proof (cases "is_limit_matched (core w1) (side (heap w1 order)) (price (heap w1 order))")
    case (Inl e)
    with p h d show ?thesis by (simp add: fill_if_limit_matched_def same_outcome_stop)
  next
    case (Inr matched)
    show ?thesis
    proof (cases matched)
      case True
      have "same_outcome
              (then_do (set_liquidity_side order l w1) (call_fill_limit_order cbs order))
              (then_do (set_liquidity_side order l w2) (call_fill_limit_order cbs order))"
        by (intro same_outcome_then_do same_outcome_set_liquidity_side d
            same_outcome_calls(3) cb)
      with True Inr p h show ?thesis by (simp add: fill_if_limit_matched_def)
    next
      case False
      with Inr p h d show ?thesis by (simp add: fill_if_limit_matched_def same_outcome_stop)
    qed
  qed
qed

lemma same_outcome_activation:
  assumes cb: "callbacks_ignore_last cbs" and d: "worlds_differ_only_in_last w1 w2"
  shows "same_outcome
           (then_do (set_liquidity_side order
                       (determine_order_liquidity initial (side (heap w1 order))
                          (price (heap w1 order)) (trigger_price (heap w1 order))) w1)
              (\<lambda>w. then_do (call_trigger_stop_order cbs order w)
                      (fill_if_limit_matched cbs order TAKER)))
           (then_do (set_liquidity_side order
                       (determine_order_liquidity initial (side (heap w2 order))
                          (price (heap w2 order)) (trigger_price (heap w2 order))) w2)
              (\<lambda>w. then_do (call_trigger_stop_order cbs order w)
                      (fill_if_limit_matched cbs order TAKER)))"
proof -
  from d have h: "heap w2 = heap w1" by (simp add: worlds_differ_only_in_last_def)
  show ?thesis unfolding h
    by (intro same_outcome_then_do same_outcome_set_liquidity_side d
        same_outcome_calls(1) [OF cb] same_outcome_fill_if_limit_matched [OF cb])
qed

lemma same_outcome_market_fill:
  assumes cb: "callbacks_ignore_last cbs" and d: "worlds_differ_only_in_last w1 w2"
  shows "same_outcome
           (then_do (set_triggered_price_c order p w1) (call_fill_market_order cbs order))
           (then_do (set_triggered_price_c order p w2) (call_fill_market_order cbs order))"
  by (intro same_outcome_then_do same_outcome_set_triggered_price d same_outcome_calls(2) [OF cb])

lemma same_outcome_match_stop_market_order:
  assumes cb: "callbacks_ignore_last cbs" and d: "worlds_differ_only_in_last w1 w2"
  shows "same_outcome (match_stop_market_order cbs order w1) (match_stop_market_order cbs order w2)"
proof -
  from d have h: "heap w2 = heap w1" and c: "differ_only_in_last (core w1) (core w2)"
    by (simp_all add: worlds_differ_only_in_last_def)
  note p = predicates_ignore_last(2) [OF c]
  show ?thesis
  proof (cases "is_stop_triggered (core w1) (side (heap w1 order)) (trigger_price (heap w1 order))")
    case (Inl e)
    with p h d show ?thesis by (simp add: match_stop_market_order_def same_outcome_stop)
  next
    case (Inr t)
    with p h d same_outcome_market_fill [OF cb d] show ?thesis
      by (simp add: match_stop_market_order_def same_outcome_stop)
  qed
qed

lemma same_outcome_match_market_if_touched_order:
  assumes cb: "callbacks_ignore_last cbs" and d: "worlds_differ_only_in_last w1 w2"
  shows "same_outcome (match_market_if_touched_order cbs order w1)
           (match_market_if_touched_order cbs order w2)"
proof -
  from d have h: "heap w2 = heap w1" and c: "differ_only_in_last (core w1) (core w2)"
    by (simp_all add: worlds_differ_only_in_last_def)
  note p = predicates_ignore_last(3) [OF c]
  show ?thesis
  proof (cases "is_touch_triggered (core w1) (side (heap w1 order)) (trigger_price (heap w1 order))")
    case (Inl e)
    with p h d show ?thesis by (simp add: match_market_if_touched_order_def same_outcome_stop)
  next
    case (Inr t)
    with p h d same_outcome_market_fill [OF cb d] show ?thesis
      by (simp add: match_market_if_touched_order_def same_outcome_stop)
  qed
qed

lemma same_outcome_match_stop_limit_order:
  assumes cb: "callbacks_ignore_last cbs" and d: "worlds_differ_only_in_last w1 w2"
  shows "same_outcome (match_stop_limit_order cbs order initial w1)
           (match_stop_limit_order cbs order initial w2)"
proof -
  from d have h: "heap w2 = heap w1" and c: "differ_only_in_last (core w1) (core w2)"
    by (simp_all add: worlds_differ_only_in_last_def)
  note p = predicates_ignore_last(2) [OF c]
  show ?thesis
  proof (cases "is_triggered (heap w1 order)")
    case True
    with h same_outcome_fill_if_limit_matched [OF cb d] show ?thesis
      by (simp add: match_stop_limit_order_def)
  next
    case False
    show ?thesis
    proof (cases "is_stop_triggered (core w1) (side (heap w1 order)) (trigger_price (heap w1 order))")
      case (Inl e)
      with False p h d show ?thesis by (simp add: match_stop_limit_order_def same_outcome_stop)
    next
      case (Inr t)
      have "same_outcome
              (then_do (set_triggered_price_c order (trigger_price (heap w1 order)) w1)
                 (\<lambda>w. then_do (set_liquidity_side order
                         (determine_order_liquidity initial (side (heap w order))
                            (price (heap w order)) (trigger_price (heap w order))) w)
                    (\<lambda>w. then_do (call_trigger_stop_order cbs order w)
                            (fill_if_limit_matched cbs order TAKER))))
              (then_do (set_triggered_price_c order (trigger_price (heap w1 order)) w2)
                 (\<lambda>w. then_do (set_liquidity_side order
                         (determine_order_liquidity initial (side (heap w order))
                            (price (heap w order)) (trigger_price (heap w order))) w)
                    (\<lambda>w. then_do (call_trigger_stop_order cbs order w)
                            (fill_if_limit_matched cbs order TAKER))))"
        by (intro same_outcome_then_do same_outcome_set_triggered_price d
            same_outcome_activation [OF cb])
      with False Inr p h d show ?thesis
        by (simp add: match_stop_limit_order_def same_outcome_stop)
    qed
  qed
qed

lemma same_outcome_match_limit_if_touched_order:
  assumes cb: "callbacks_ignore_last cbs" and d: "worlds_differ_only_in_last w1 w2"
  shows "same_outcome (match_limit_if_touched_order cbs order initial w1)
           (match_limit_if_touched_order cbs order initial w2)"
proof -
  from d have h: "heap w2 = heap w1" and c: "differ_only_in_last (core w1) (core w2)"
    by (simp_all add: worlds_differ_only_in_last_def)
  note p = predicates_ignore_last(3) [OF c]
  show ?thesis
  proof (cases "is_triggered (heap w1 order)")
    case True
    with h same_outcome_fill_if_limit_matched [OF cb d] show ?thesis
      by (simp add: match_limit_if_touched_order_def)
  next
    case False
    show ?thesis
    proof (cases "is_touch_triggered (core w1) (side (heap w1 order)) (trigger_price (heap w1 order))")
      case (Inl e)
      with False p h d show ?thesis
        by (simp add: match_limit_if_touched_order_def same_outcome_stop)
    next
      case (Inr t)
      have k: "same_outcome
              (then_do r1
                 (\<lambda>w. then_do (set_liquidity_side order
                         (determine_order_liquidity initial (side (heap w order))
                            (price (heap w order)) (trigger_price (heap w order))) w)
                    (\<lambda>w. then_do (call_trigger_stop_order cbs order w)
                            (fill_if_limit_matched cbs order TAKER))))
              (then_do r2
                 (\<lambda>w. then_do (set_liquidity_side order
                         (determine_order_liquidity initial (side (heap w order))
                            (price (heap w order)) (trigger_price (heap w order))) w)
                    (\<lambda>w. then_do (call_trigger_stop_order cbs order w)
                            (fill_if_limit_matched cbs order TAKER))))"
        if "same_outcome r1 r2" for r1 r2
        by (intro same_outcome_then_do that same_outcome_activation [OF cb])
      show ?thesis
      proof (cases initial)
        case True
        with False Inr p h d k [OF same_outcome_stop [OF d, of None "[]"]] show ?thesis
          by (simp add: match_limit_if_touched_order_def same_outcome_stop)
      next
        case ni: False
        with False Inr p h d
          k [OF same_outcome_set_triggered_price [OF d, of order "trigger_price (heap w1 order)"]]
        show ?thesis
          by (simp add: match_limit_if_touched_order_def same_outcome_stop)
      qed
    qed
  qed
qed

lemma same_outcome_dispatch:
  assumes cb: "callbacks_ignore_last cbs" and d: "worlds_differ_only_in_last w1 w2"
  shows "same_outcome (dispatch cbs order initial w1) (dispatch cbs order initial w2)"
proof -
  from d have h: "heap w2 = heap w1" by (simp add: worlds_differ_only_in_last_def)
  show ?thesis
    unfolding dispatch_def match_limit_order_def h
    using same_outcome_fill_if_limit_matched [OF cb d]
      same_outcome_match_stop_limit_order [OF cb d]
      same_outcome_match_stop_market_order [OF cb d]
      same_outcome_match_limit_if_touched_order [OF cb d]
      same_outcome_match_market_if_touched_order [OF cb d]
      same_outcome_stop [OF d]
    by simp
qed

lemma same_outcome_match_order:
  assumes cb: "callbacks_ignore_last cbs" and d: "worlds_differ_only_in_last w1 w2"
  shows "same_outcome (match_order cbs order initial w1) (match_order cbs order initial w2)"
  unfolding match_order_def
  by (intro same_outcome_then_do same_outcome_stop d same_outcome_dispatch [OF cb])

lemma heap_update_ignores_last:
  "callback_ignores_last (\<lambda>order w. (None, w\<lparr>heap := (heap w)(order := f (heap w order))\<rparr>))"
  by (simp add: callback_ignores_last_def worlds_differ_only_in_last_def)

lemma engine_callbacks_ignore_last: "callbacks_ignore_last engine_callbacks"
  using heap_update_ignores_last [of "\<lambda>ord. ord\<lparr>is_triggered := True\<rparr>"]
    heap_update_ignores_last [of "\<lambda>ord. ord\<lparr>is_closed := True\<rparr>"]
  by (simp add: callbacks_ignore_last_def engine_callbacks_def mark_triggered_def
      close_order_def [abs_def] mark_triggered_def [abs_def])

text \<open>
  Claim C9, as stated: on two states that differ only in the last price, \<open>match_order\<close>
  performs identical callback invocations and order mutations. It fails for callbacks that
  depend on the last price themselves, which the core exposes as \<^verbatim>\<open>core.last\<close>. On the
  stop-limit buy, with a trigger callback that raises while no last price is published, the
  call ends after the trigger callback when the last price is unset and goes on to fill the
  order when it is 12345.
\<close>

theorem last_price_reaches_matching_through_callbacks:
  "core (world_stop_limit\<lparr>core := set_last_raw 12345 (core world_stop_limit)\<rparr>)
     = (core world_stop_limit)\<lparr>is_last_initialized := True, last_raw := 12345\<rparr>
   \<and> heap (world_stop_limit\<lparr>core := set_last_raw 12345 (core world_stop_limit)\<rparr>)
     = heap world_stop_limit
   \<and> worlds_differ_only_in_last world_stop_limit
        (world_stop_limit\<lparr>core := set_last_raw 12345 (core world_stop_limit)\<rparr>)
   \<and> fst (match_order last_reading_callbacks 0 False world_stop_limit) = Some CallbackError
   \<and> fst (snd (match_order last_reading_callbacks 0 False world_stop_limit))
       = [MatchOrder 0 False, SetTriggeredPrice 0 10050, SetLiquiditySide 0 TAKER,
          TriggerStopOrder 0]
   \<and> fst (match_order last_reading_callbacks 0 False
        (world_stop_limit\<lparr>core := set_last_raw 12345 (core world_stop_limit)\<rparr>)) = None
   \<and> fst (snd (match_order last_reading_callbacks 0 False
        (world_stop_limit\<lparr>core := set_last_raw 12345 (core world_stop_limit)\<rparr>)))
       = [MatchOrder 0 False, SetTriggeredPrice 0 10050, SetLiquiditySide 0 TAKER,
          TriggerStopOrder 0, SetLiquiditySide 0 TAKER, FillLimitOrder 0]"
  by (simp add: match_order_def dispatch_def match_stop_limit_order_def then_do_None
      trigger_then_fill set_triggered_price_c_def set_liquidity_side_def
      world_stop_limit_def stop_limit_buy_def example_order_def last_reading_callbacks_def
      trigger_needs_last_def mark_triggered_def close_order_def set_ask_raw_def
      set_bid_raw_def set_last_raw_def init_core_def is_stop_triggered_def
      is_limit_matched_def determine_order_liquidity_def worlds_differ_only_in_last_def
      differ_only_in_last_def)

text \<open>
  Claim C9, amended. For two core states that differ only in \<open>last_raw\<close> and
  \<open>is_last_initialized\<close>, the three predicates return the same result for every side and
  price; and \<open>match_order\<close>, provided the injected callbacks do not depend on the last price
  themselves, raises the same exception or none, performs the same writes to the order and
  the same callback calls in the same order, and leaves the same orders and two cores that
  still differ only in the last price.
\<close>

theorem last_price_never_influences_matching:
  "(differ_only_in_last c1 c2 \<longrightarrow>
      is_limit_matched c1 sd p = is_limit_matched c2 sd p
      \<and> is_stop_triggered c1 sd p = is_stop_triggered c2 sd p
      \<and> is_touch_triggered c1 sd p = is_touch_triggered c2 sd p)
   \<and> (worlds_differ_only_in_last w1 w2 \<and> callbacks_ignore_last cbs \<longrightarrow>
        fst (match_order cbs order initial w1) = fst (match_order cbs order initial w2)
        \<and> fst (snd (match_order cbs order initial w1))
            = fst (snd (match_order cbs order initial w2))
        \<and> heap (snd (snd (match_order cbs order initial w1)))
            = heap (snd (snd (match_order cbs order initial w2)))
        \<and> differ_only_in_last (core (snd (snd (match_order cbs order initial w1))))
            (core (snd (snd (match_order cbs order initial w2)))))"
proof -
  have a: "is_limit_matched c1 sd p = is_limit_matched c2 sd p
      \<and> is_stop_triggered c1 sd p = is_stop_triggered c2 sd p
      \<and> is_touch_triggered c1 sd p = is_touch_triggered c2 sd p" if "differ_only_in_last c1 c2"
    using predicates_ignore_last [OF that, of sd p] by simp
  have b: "same_outcome (match_order cbs order initial w1) (match_order cbs order initial w2)"
    if "worlds_differ_only_in_last w1 w2" "callbacks_ignore_last cbs"
    using same_outcome_match_order [OF that(2) that(1)] .
  from a b show ?thesis
    unfolding same_outcome_def worlds_differ_only_in_last_def by blast
qed

text \<open>The claim on the stop-limit buy, with the last price unset in one world and set to
  12345 in the other: the same five steps are taken in both.\<close>

theorem last_price_never_influences_matching_witness:
  "differ_only_in_last (core world_stop_limit) (set_last_raw 12345 (core world_stop_limit))
   \<and> is_limit_matched (set_last_raw 12345 (core world_stop_limit)) BUY 10200
       = is_limit_matched (core world_stop_limit) BUY 10200
   \<and> is_limit_matched (core world_stop_limit) BUY 10200 = Inr True
   \<and> worlds_differ_only_in_last world_stop_limit
        (world_stop_limit\<lparr>core := set_last_raw 12345 (core world_stop_limit)\<rparr>)
   \<and> callbacks_ignore_last engine_callbacks
   \<and> fst (snd (match_order engine_callbacks 0 False
        (world_stop_limit\<lparr>core := set_last_raw 12345 (core world_stop_limit)\<rparr>)))
       = fst (snd (match_order engine_callbacks 0 False world_stop_limit))
   \<and> fst (snd (match_order engine_callbacks 0 False world_stop_limit))
       = [MatchOrder 0 False, SetTriggeredPrice 0 10050, SetLiquiditySide 0 TAKER,
          TriggerStopOrder 0, SetLiquiditySide 0 TAKER, FillLimitOrder 0]
   \<and> heap (snd (snd (match_order engine_callbacks 0 False
        (world_stop_limit\<lparr>core := set_last_raw 12345 (core world_stop_limit)\<rparr>))))
       = heap (snd (snd (match_order engine_callbacks 0 False world_stop_limit)))"
proof -
  have d: "differ_only_in_last (core world_stop_limit) (set_last_raw 12345 (core world_stop_limit))"
    by (simp add: differ_only_in_last_def set_last_raw_def)
  then have wd: "worlds_differ_only_in_last world_stop_limit
        (world_stop_limit\<lparr>core := set_last_raw 12345 (core world_stop_limit)\<rparr>)"
    by (simp add: worlds_differ_only_in_last_def)
  have ev: "fst (snd (match_order engine_callbacks 0 False world_stop_limit))
       = [MatchOrder 0 False, SetTriggeredPrice 0 10050, SetLiquiditySide 0 TAKER,
          TriggerStopOrder 0, SetLiquiditySide 0 TAKER, FillLimitOrder 0]"
    by (simp add: match_order_def dispatch_def match_stop_limit_order_def then_do_None
      trigger_then_fill set_triggered_price_c_def set_liquidity_side_def
      world_stop_limit_def stop_limit_buy_def example_order_def engine_callbacks_def
      mark_triggered_def close_order_def set_ask_raw_def set_bid_raw_def init_core_def
      is_stop_triggered_def is_limit_matched_def determine_order_liquidity_def)
  have lm: "is_limit_matched (core world_stop_limit) BUY 10200 = Inr True"
    by (simp add: world_stop_limit_def set_ask_raw_def set_bid_raw_def init_core_def
      is_limit_matched_def)
  from last_price_never_influences_matching
    [of "core world_stop_limit" "set_last_raw 12345 (core world_stop_limit)" BUY 10200
       world_stop_limit "world_stop_limit\<lparr>core := set_last_raw 12345 (core world_stop_limit)\<rparr>"
       engine_callbacks 0 False]
    d wd engine_callbacks_ignore_last ev lm
  show ?thesis by simp
qed

section \<open>Sorted side lists: claim C1\<close>

lemma world_book_core:
  "core world_book =
     init_core\<lparr>orders := [0 \<mapsto> 0, 1 \<mapsto> 1], orders_bid := [0, 1],
       is_ask_initialized := True, ask_raw := 300\<rparr>"
  by (simp add: world_book_def add_order_def sort_bid_orders_def list_sort_def
      order_sort_key_def store_book_def example_order_def init_core_def set_ask_raw_def)

lemma world_book_sweep:
  "iterate engine_callbacks 0 world_book =
     (None,
      [MatchOrder 0 False, MatchOrder 1 False, SetTriggeredPrice 1 100,
       SetLiquiditySide 1 TAKER, TriggerStopOrder 1],
      world_book\<lparr>heap := store_book
        (1 := (store_book 1)\<lparr>triggered_price := Some 100, liquidity_side := TAKER,
                is_triggered := True\<rparr>)\<rparr>)"
  by (simp add: iterate_def world_book_core match_order_def dispatch_def match_limit_order_def
      match_stop_limit_order_def fill_if_limit_matched_def is_limit_matched_def
      is_stop_triggered_def determine_order_liquidity_def then_do_def
      set_liquidity_side_def set_triggered_price_c_def call_trigger_stop_order_def
      engine_callbacks_def mark_triggered_def
      world_book_def [THEN arg_cong, of heap] store_book_def example_order_def init_core_def)

text \<open>
  Claim C1, as stated: after any \<open>match_order\<close> or \<open>iterate\<close> call has returned the bid list
  is sorted descending by \<open>order_sort_key\<close>, also once the trigger callback has set
  \<open>is_triggered\<close> on a resting stop-limit order. It fails: the lists are sorted only inside
  \<open>add_order\<close>. In the example the bid list \<open>[0, 1]\<close> has the keys 150, 100 before the sweep;
  the sweep triggers order 1, whose key becomes its limit 200, and the list stays \<open>[0, 1]\<close>
  with the keys 150, 200.
\<close>

theorem triggered_order_unsorts_bids:
  "book_sorted world_book
   \<and> fst (iterate engine_callbacks 0 world_book) = None
   \<and> orders_bid (core (snd (snd (iterate engine_callbacks 0 world_book)))) = [0, 1]
   \<and> keyed (heap (snd (snd (iterate engine_callbacks 0 world_book)))) [0, 1]
       = Inr [(150, 0), (200, 1)]
   \<and> \<not> book_sorted (snd (snd (iterate engine_callbacks 0 world_book)))"
  unfolding world_book_sweep
  by (simp add: book_sorted_def bids_sorted_def asks_sorted_def world_book_core
      order_sort_key_def store_book_def example_order_def init_core_def
      world_book_def [THEN arg_cong, of heap])

subsection \<open>What keeps the lists sorted\<close>

lemma keyed_iff:
  "keyed h xs = Inr kxs \<longleftrightarrow>
     xs = map snd kxs \<and> (\<forall>kx \<in> set kxs. order_sort_key (h (snd kx)) = Inr (fst kx))"
proof (induction xs arbitrary: kxs)
  case Nil
  show ?case by auto
next
  case (Cons x xs)
  show ?case
  proof (cases "order_sort_key (h x)")
    case (Inl e)
    then show ?thesis by (cases kxs) auto
  next
    case (Inr k)
    show ?thesis
    proof (cases "keyed h xs")
      case (Inl e)
      with Inr Cons.IH show ?thesis by (cases kxs) auto
    next
      case r: (Inr kys)
      with Inr Cons.IH show ?thesis by (cases kxs) auto
    qed
  qed
qed

lemma keyed_cong:
  "list_all (\<lambda>x. order_sort_key (h' x) = order_sort_key (h x)) xs \<Longrightarrow> keyed h' xs = keyed h xs"
  by (induction xs) (auto split: sum.splits)

lemma list_sort_sorted:
  assumes "list_sort h r xs = Inr ys"
  shows "\<exists>kys. keyed h ys = Inr kys
           \<and> (if r then sorted_wrt (\<ge>) (map fst kys) else sorted_wrt (\<le>) (map fst kys))"
proof -
  let ?f = "\<lambda>kx :: int \<times> oref. if r then - fst kx else fst kx"
  from assms obtain kxs where k: "keyed h xs = Inr kxs"
    and ys: "ys = map snd (sort_key ?f kxs)"
    by (auto simp: list_sort_def split: sum.splits)
  let ?kys = "sort_key ?f kxs"
  from k have "\<forall>kx \<in> set ?kys. order_sort_key (h (snd kx)) = Inr (fst kx)"
    by (simp add: keyed_iff)
  with ys have 1: "keyed h ys = Inr ?kys" by (simp add: keyed_iff)
  have s: "sorted (map ?f ?kys)" by (rule sorted_sort_key)
  have 2: "if r then sorted_wrt (\<ge>) (map fst ?kys) else sorted_wrt (\<le>) (map fst ?kys)"
  proof (cases r)
    case True
    with s have "sorted (map (\<lambda>kx. - fst kx) ?kys)" by simp
    with True show ?thesis by (simp add: sorted_wrt_map)
  next
    case False
    with s have "sorted (map fst ?kys)" by simp
    with False show ?thesis by (simp add: sorted_wrt_map)
  qed
  from 1 2 show ?thesis by blast
qed

lemma list_remove_sorted:
  assumes "keyed h xs = Inr kxs" and "sorted_wrt P (map fst kxs)"
  shows "\<exists>kys. keyed h (list_remove h a xs) = Inr kys \<and> sorted_wrt P (map fst kys)
           \<and> set kys \<subseteq> set kxs"
  using assms
proof (induction xs arbitrary: kxs)
  case Nil
  then show ?case by simp
next
  case (Cons x xs)
  from Cons.prems(1) obtain k kxs' where
    kx: "order_sort_key (h x) = Inr k" and kxs': "keyed h xs = Inr kxs'"
    and kxs: "kxs = (k, x) # kxs'"
    by (auto split: sum.splits)
  from Cons.prems(2) kxs have s': "sorted_wrt P (map fst kxs')"
    and hd: "\<forall>kx \<in> set kxs'. P k (fst kx)" by simp_all
  show ?case
  proof (cases "order_eq h x a")
    case True
    with kxs' s' kxs show ?thesis by auto
  next
    case False
    from Cons.IH [OF kxs' s'] obtain kys where
      1: "keyed h (list_remove h a xs) = Inr kys" and 2: "sorted_wrt P (map fst kys)"
      and 3: "set kys \<subseteq> set kxs'" by blast
    from 3 hd have "\<forall>kx \<in> set kys. P k (fst kx)" by blast
    with False kx 1 2 3 kxs show ?thesis by auto
  qed
qed

lemma add_order_sorted:
  assumes "add_order h order c = (None, c')"
  shows "(side (h order) = BUY \<longrightarrow> bids_sorted h c' \<and> orders_ask c' = orders_ask c)
       \<and> (side (h order) = SELL \<longrightarrow> asks_sorted h c' \<and> orders_bid c' = orders_bid c)"
proof (intro conjI impI)
  assume b: "side (h order) = BUY"
  with assms obtain ys where
    ys: "list_sort h True (orders_bid c @ [order]) = Inr ys"
    and c': "c' = c\<lparr>orders := (orders c)(client_order_id (h order) \<mapsto> order),
                    orders_bid := ys\<rparr>"
    by (auto simp: add_order_def sort_bid_orders_def Let_def split: sum.splits)
  from list_sort_sorted [OF ys] c' show "bids_sorted h c'" by (auto simp: bids_sorted_def)
  from c' show "orders_ask c' = orders_ask c" by simp
next
  assume s: "side (h order) = SELL"
  with assms obtain ys where
    ys: "list_sort h False (orders_ask c @ [order]) = Inr ys"
    and c': "c' = c\<lparr>orders := (orders c)(client_order_id (h order) \<mapsto> order),
                    orders_ask := ys\<rparr>"
    by (auto simp: add_order_def sort_ask_orders_def Let_def split: sum.splits)
  from list_sort_sorted [OF ys] c' show "asks_sorted h c'" by (auto simp: asks_sorted_def)
  from c' show "orders_bid c' = orders_bid c" by simp
qed

lemma delete_order_sorted:
  "(bids_sorted h c \<longrightarrow> bids_sorted h (snd (delete_order h order c)))
   \<and> (asks_sorted h c \<longrightarrow> asks_sorted h (snd (delete_order h order c)))"
proof (intro conjI impI)
  assume "bids_sorted h c"
  then obtain kxs where k: "keyed h (orders_bid c) = Inr kxs"
    and s: "sorted_wrt (\<ge>) (map fst kxs)"
    by (auto simp: bids_sorted_def split: sum.splits)
  from list_remove_sorted [OF k s, of order] k s
  show "bids_sorted h (snd (delete_order h order c))"
    by (auto simp: delete_order_def bids_sorted_def Let_def)
next
  assume "asks_sorted h c"
  then obtain kxs where k: "keyed h (orders_ask c) = Inr kxs"
    and s: "sorted_wrt (\<le>) (map fst kxs)"
    by (auto simp: asks_sorted_def split: sum.splits)
  from list_remove_sorted [OF k s, of order] k s
  show "asks_sorted h (snd (delete_order h order c))"
    by (auto simp: delete_order_def asks_sorted_def Let_def)
qed


lemma same_book_sorted:
  assumes "same_book w w'" and "book_sorted w"
  shows "book_sorted w'"
proof -
  from assms(1) have b: "orders_bid (core w') = orders_bid (core w)"
    and a: "orders_ask (core w') = orders_ask (core w)"
    and kb: "list_all (\<lambda>x. order_sort_key (heap w' x) = order_sort_key (heap w x))
               (orders_bid (core w))"
    and ka: "list_all (\<lambda>x. order_sort_key (heap w' x) = order_sort_key (heap w x))
               (orders_ask (core w))"
    by (simp_all add: same_book_def)
  from assms(2) show ?thesis
    by (simp add: book_sorted_def bids_sorted_def asks_sorted_def a b
        keyed_cong [OF kb] keyed_cong [OF ka])
qed

lemma same_book_primitives:
  "same_book w (snd (snd (set_triggered_price_c order p w)))"
  "same_book w (snd (snd (set_liquidity_side order l w)))"
  by (simp_all add: set_triggered_price_c_def set_liquidity_side_def same_book_def
      list_all_iff order_sort_key_def)

lemma sorted_primitives:
  assumes "book_sorted w"
  shows "book_sorted (snd (snd (set_triggered_price_c order p w)))"
    and "book_sorted (snd (snd (set_liquidity_side order l w)))"
  using same_book_sorted [OF same_book_primitives(1) assms]
    same_book_sorted [OF same_book_primitives(2) assms] by blast+

lemma sorted_then_do:
  assumes "book_sorted (snd (snd r))"
    and "\<And>w1. book_sorted w1 \<Longrightarrow> book_sorted (snd (snd (f w1)))"
  shows "book_sorted (snd (snd (then_do r f)))"
proof -
  obtain e evs w1 where r: "r = (e, evs, w1)" using prod_cases3 by blast
  show ?thesis
  proof (cases e)
    case (Some e')
    with assms(1) r show ?thesis by (simp add: then_do_Some)
  next
    case None
    from assms(1) r have "book_sorted w1" by simp
    then have "book_sorted (snd (snd (f w1)))" by (rule assms(2))
    with None r show ?thesis by (auto simp: then_do_None split: prod.splits)
  qed
qed

lemma sorted_calls:
  assumes "callbacks_keep_sorted cbs" and "book_sorted w"
  shows "book_sorted (snd (snd (call_trigger_stop_order cbs order w)))"
    and "book_sorted (snd (snd (call_fill_market_order cbs order w)))"
    and "book_sorted (snd (snd (call_fill_limit_order cbs order w)))"
proof -
  from assms have "book_sorted (snd (trigger_stop_order cbs order w))"
    and "book_sorted (snd (fill_market_order cbs order w))"
    and "book_sorted (snd (fill_limit_order cbs order w))"
    by (simp_all add: callbacks_keep_sorted_def callback_keeps_sorted_def)
  then show "book_sorted (snd (snd (call_trigger_stop_order cbs order w)))"
    and "book_sorted (snd (snd (call_fill_market_order cbs order w)))"
    and "book_sorted (snd (snd (call_fill_limit_order cbs order w)))"
    by (auto simp: call_trigger_stop_order_def call_fill_market_order_def
        call_fill_limit_order_def split: prod.splits)
qed

lemma sorted_fill_if_limit_matched:
  assumes cb: "callbacks_keep_sorted cbs" and s: "book_sorted w"
  shows "book_sorted (snd (snd (fill_if_limit_matched cbs order l w)))"
proof -
  have "book_sorted (snd (snd (then_do (set_liquidity_side order l w)
          (call_fill_limit_order cbs order))))"
    by (rule sorted_then_do) (rule sorted_primitives [OF s], rule sorted_calls [OF cb])
  with s show ?thesis by (simp add: fill_if_limit_matched_def split: sum.splits)
qed

lemma sorted_market_fill:
  assumes cb: "callbacks_keep_sorted cbs" and s: "book_sorted w"
  shows "book_sorted (snd (snd (then_do (set_triggered_price_c order p w)
           (call_fill_market_order cbs order))))"
  by (rule sorted_then_do) (rule sorted_primitives [OF s], rule sorted_calls [OF cb])

lemma sorted_activation:
  assumes cb: "callbacks_keep_sorted cbs" and s: "book_sorted (snd (snd r))"
  shows "book_sorted (snd (snd (then_do r
           (\<lambda>w. then_do (set_liquidity_side order (l w) w)
             (\<lambda>w. then_do (call_trigger_stop_order cbs order w)
                     (fill_if_limit_matched cbs order TAKER))))))"
proof (rule sorted_then_do [OF s])
  fix w1 assume s1: "book_sorted w1"
  show "book_sorted (snd (snd (then_do (set_liquidity_side order (l w1) w1)
          (\<lambda>w. then_do (call_trigger_stop_order cbs order w)
                  (fill_if_limit_matched cbs order TAKER)))))"
  proof (rule sorted_then_do [OF sorted_primitives(2) [OF s1]])
    fix w2 assume s2: "book_sorted w2"
    show "book_sorted (snd (snd (then_do (call_trigger_stop_order cbs order w2)
            (fill_if_limit_matched cbs order TAKER))))"
      by (rule sorted_then_do [OF sorted_calls(1) [OF cb s2]])
        (rule sorted_fill_if_limit_matched [OF cb])
  qed
qed

lemma sorted_dispatch:
  assumes cb: "callbacks_keep_sorted cbs" and s: "book_sorted w"
  shows "book_sorted (snd (snd (dispatch cbs order initial w)))"
proof -
  note f = sorted_fill_if_limit_matched [OF cb s]
  note m = sorted_market_fill [OF cb s]
  have p: "book_sorted (snd (snd (set_triggered_price_c order q w)))" for q
    by (rule sorted_primitives [OF s])
  have n: "book_sorted (snd (snd (None :: error option, [] :: event list, w)))"
    using s by simp
  have 1: "book_sorted (snd (snd (match_limit_order cbs order w)))"
    by (simp add: match_limit_order_def f)
  have 2: "book_sorted (snd (snd (match_stop_market_order cbs order w)))"
    using s by (simp add: match_stop_market_order_def m split: sum.splits)
  have 3: "book_sorted (snd (snd (match_market_if_touched_order cbs order w)))"
    using s by (simp add: match_market_if_touched_order_def m split: sum.splits)
  have 4: "book_sorted (snd (snd (match_stop_limit_order cbs order initial w)))"
    using s
    by (simp add: match_stop_limit_order_def f sorted_activation [OF cb p]
        split: sum.splits)
  have 5: "book_sorted (snd (snd (match_limit_if_touched_order cbs order initial w)))"
    using s
    by (simp add: match_limit_if_touched_order_def f sorted_activation [OF cb p]
        sorted_activation [OF cb n] split: sum.splits)
  from 1 2 3 4 5 s show ?thesis by (simp add: dispatch_def)
qed

lemma sorted_match_order:
  assumes cb: "callbacks_keep_sorted cbs" and s: "book_sorted w"
  shows "book_sorted (snd (snd (match_order cbs order initial w)))"
  unfolding match_order_def
  by (rule sorted_then_do) (simp_all add: s sorted_dispatch [OF cb])

lemma sorted_iterate_loop:
  assumes cb: "callbacks_keep_sorted cbs"
  shows "book_sorted w \<Longrightarrow> book_sorted (snd (snd (iterate_loop cbs xs w)))"
proof (induction xs arbitrary: w)
  case Nil
  then show ?case by simp
next
  case (Cons x xs)
  have "book_sorted (snd (snd (then_do (match_order cbs x False w) (iterate_loop cbs xs))))"
    by (rule sorted_then_do [OF sorted_match_order [OF cb Cons.prems]]) (rule Cons.IH)
  with Cons.IH [OF Cons.prems] show ?case by simp
qed

text \<open>
  Claim C1, amended. A fresh core has sorted side lists. When \<open>add_order\<close> returns
  normally, the side list it appended to is sorted by \<open>order_sort_key\<close> as the orders are
  at that moment (descending for bids, ascending for asks) and the other side list is
  unchanged. \<open>delete_order\<close> keeps a sorted list sorted. \<open>match_order\<close> and \<open>iterate\<close>
  themselves never put a list out of order: when the lists are sorted at entry and each
  callback, called on sorted lists, leaves sorted lists, the lists are sorted when
  \<open>match_order\<close> or \<open>iterate\<close> returns. Nothing is promised once a callback has put a list out
  of order by changing the sort key of a resting order, as \<open>trigger_stop_order\<close> does when it
  sets \<open>is_triggered\<close>: that side is sorted again only by the next \<open>add_order\<close> on it.
\<close>

theorem sortedness_maintained:
  "bids_sorted h init_core \<and> asks_sorted h init_core
   \<and> (add_order h order c = (None, c') \<longrightarrow>
        (side (h order) = BUY \<longrightarrow> bids_sorted h c' \<and> orders_ask c' = orders_ask c)
        \<and> (side (h order) = SELL \<longrightarrow> asks_sorted h c' \<and> orders_bid c' = orders_bid c))
   \<and> (bids_sorted h c \<longrightarrow> bids_sorted h (snd (delete_order h order c)))
   \<and> (asks_sorted h c \<longrightarrow> asks_sorted h (snd (delete_order h order c)))
   \<and> (callbacks_keep_sorted cbs \<and> book_sorted w \<longrightarrow>
        book_sorted (snd (snd (match_order cbs order initial w)))
        \<and> book_sorted (snd (snd (iterate cbs ts w))))"
proof -
  have i: "bids_sorted h init_core \<and> asks_sorted h init_core"
    by (simp add: bids_sorted_def asks_sorted_def init_core_def)
  have a: "(side (h order) = BUY \<longrightarrow> bids_sorted h c' \<and> orders_ask c' = orders_ask c)
           \<and> (side (h order) = SELL \<longrightarrow> asks_sorted h c' \<and> orders_bid c' = orders_bid c)"
    if "add_order h order c = (None, c')"
    by (rule add_order_sorted [OF that])
  note d = delete_order_sorted [of h c order]
  have m: "book_sorted (snd (snd (match_order cbs order initial w)))
           \<and> book_sorted (snd (snd (iterate cbs ts w)))"
    if "callbacks_keep_sorted cbs" "book_sorted w"
    using sorted_match_order [OF that] sorted_iterate_loop [OF that]
    by (simp add: iterate_def)
  from i a d m show ?thesis by blast
qed

lemma close_and_delete_keeps_sorted: "callback_keeps_sorted close_and_delete"
  unfolding callback_keeps_sorted_def
proof (intro allI impI)
  fix order w
  assume s: "book_sorted w"
  let ?h = "(heap w)(order := (heap w order)\<lparr>is_closed := True\<rparr>)"
  have k: "list_all (\<lambda>x. order_sort_key (?h x) = order_sort_key (heap w x)) xs" for xs
    by (simp add: list_all_iff order_sort_key_def)
  from s have "bids_sorted ?h (core w)" and "asks_sorted ?h (core w)"
    by (simp_all add: book_sorted_def bids_sorted_def asks_sorted_def keyed_cong [OF k])
  with delete_order_sorted [of ?h "core w" order]
  show "book_sorted (snd (close_and_delete order w))"
    by (simp add: close_and_delete_def book_sorted_def Let_def)
qed

lemma closing_callbacks_keep_sorted: "callbacks_keep_sorted closing_callbacks"
proof -
  have "callback_keeps_sorted (\<lambda>order w. (None, w))"
    by (simp add: callback_keeps_sorted_def)
  then show ?thesis
    by (simp add: callbacks_keep_sorted_def closing_callbacks_def
        close_and_delete_keeps_sorted)
qed

lemma world_book_marketable_match:
  "match_order closing_callbacks 0 False world_book_marketable =
     (None, [MatchOrder 0 False, SetLiquiditySide 0 MAKER, FillLimitOrder 0],
      \<lparr>core = (core world_book_marketable)\<lparr>orders := [1 \<mapsto> 1], orders_bid := [1]\<rparr>,
       heap = store_book
         (0 := (store_book 0)\<lparr>liquidity_side := MAKER, is_closed := True\<rparr>)\<rparr>)"
  by (simp add: world_book_marketable_def world_book_core match_order_def dispatch_def
      match_limit_order_def fill_if_limit_matched_def is_limit_matched_def then_do_def
      set_liquidity_side_def call_fill_limit_order_def closing_callbacks_def
      close_and_delete_def delete_order_def order_in_def order_eq_def Let_def set_ask_raw_def
      world_book_def [THEN arg_cong, of heap] store_book_def example_order_def init_core_def
      fun_upd_twist)

text \<open>
  The amended claim on the example. Adding order 0 to a fresh core gives the sorted bid
  list \<open>[0]\<close> and leaves the ask list; the book \<open>[0, 1]\<close> is sorted. With the ask at 120 and
  fill callbacks that close and delete the filled order, matching order 0 fills it and
  leaves the sorted bid list \<open>[1]\<close>, and the lists are sorted after the sweep; deleting
  order 0 directly leaves a sorted list too.
\<close>

theorem sortedness_maintained_witness:
  "add_order store_book 0 init_core
      = (None, init_core\<lparr>orders := [0 \<mapsto> 0], orders_bid := [0]\<rparr>)
   \<and> side (store_book 0) = BUY
   \<and> bids_sorted store_book (init_core\<lparr>orders := [0 \<mapsto> 0], orders_bid := [0]\<rparr>)
   \<and> callbacks_keep_sorted closing_callbacks
   \<and> book_sorted world_book_marketable
   \<and> orders_bid (core world_book_marketable) = [0, 1]
   \<and> orders_bid (core (snd (snd (match_order closing_callbacks 0 False world_book_marketable))))
       = [1]
   \<and> book_sorted (snd (snd (match_order closing_callbacks 0 False world_book_marketable)))
   \<and> book_sorted (snd (snd (iterate closing_callbacks 0 world_book_marketable)))
   \<and> bids_sorted store_book (core world_book)
   \<and> bids_sorted store_book (snd (delete_order store_book 0 (core world_book)))"
proof -
  let ?c = "init_core\<lparr>orders := [0 \<mapsto> 0], orders_bid := [0]\<rparr>"
  have ad: "add_order store_book 0 init_core = (None, ?c)"
    by (simp add: add_order_def sort_bid_orders_def list_sort_def order_sort_key_def
        store_book_def example_order_def init_core_def)
  have sd: "side (store_book 0) = BUY" by (simp add: store_book_def example_order_def)
  have bs: "bids_sorted store_book (core world_book)"
    by (simp add: bids_sorted_def world_book_core order_sort_key_def store_book_def
        example_order_def init_core_def)
  have ws: "book_sorted world_book_marketable"
    by (simp add: book_sorted_def bids_sorted_def asks_sorted_def world_book_marketable_def
        world_book_core init_core_def set_ask_raw_def order_sort_key_def store_book_def
        example_order_def world_book_def [THEN arg_cong, of heap])
  have ob: "orders_bid (core world_book_marketable) = [0, 1]"
    by (simp add: world_book_marketable_def world_book_core set_ask_raw_def init_core_def)
  have mb: "orders_bid (core (snd (snd (match_order closing_callbacks 0 False
              world_book_marketable)))) = [1]"
    unfolding world_book_marketable_match by simp
  note kb = closing_callbacks_keep_sorted
  note inst1 = sortedness_maintained
    [where h = store_book and order = 0 and c = init_core and c' = ?c
       and cbs = closing_callbacks and w = world_book_marketable and initial = False and ts = 0]
  note inst3 = sortedness_maintained
    [where h = store_book and order = 0 and c = "core world_book" and c' = ?c
       and cbs = closing_callbacks and w = world_book_marketable and initial = False and ts = 0]
  from inst1 ad sd have 1: "bids_sorted store_book ?c" by blast
  from inst1 kb ws
  have 2: "book_sorted (snd (snd (match_order closing_callbacks 0 False world_book_marketable)))"
    and 3: "book_sorted (snd (snd (iterate closing_callbacks 0 world_book_marketable)))"
    by blast+
  from inst3 bs
  have 4: "bids_sorted store_book (snd (delete_order store_book 0 (core world_book)))"
    by blast
  from ad sd 1 kb ws ob mb 2 3 bs 4 show ?thesis by (intro conjI) assumption+
qed

section \<open>The sweep: claim C7\<close>

lemma then_do_unit: "then_do (None, [], w) f = f w"
  by (simp add: then_do_def split: prod.splits)

lemma then_do_assoc: "then_do (then_do r f) g = then_do r (\<lambda>w. then_do (f w) g)"
  by (simp add: then_do_def split: prod.splits option.splits)

lemma then_do_events:
  "fst (snd (then_do r f)) =
     fst (snd r) @ (case fst r of None \<Rightarrow> fst (snd (f (snd (snd r)))) | Some e \<Rightarrow> [])"
  by (simp add: then_do_def split: prod.splits option.splits)

lemma iterate_loop_append:
  "iterate_loop cbs (xs @ ys) w = then_do (iterate_loop cbs xs w) (iterate_loop cbs ys)"
proof (induction xs arbitrary: w)
  case Nil
  show ?case by (simp add: then_do_unit)
next
  case (Cons x xs)
  from Cons.IH have "iterate_loop cbs (xs @ ys) =
      (\<lambda>w. then_do (iterate_loop cbs xs w) (iterate_loop cbs ys))"
    by (intro ext)
  then show ?case by (simp add: then_do_assoc)
qed

lemma matched_orders_append:
  "matched_orders (xs @ ys) = matched_orders xs @ matched_orders ys"
  by (induction xs rule: matched_orders.induct) simp_all

lemma matched_orders_then_do:
  "matched_orders (fst (snd (then_do r f))) =
     matched_orders (fst (snd r))
       @ (case fst r of None \<Rightarrow> matched_orders (fst (snd (f (snd (snd r))))) | Some e \<Rightarrow> [])"
  by (simp add: then_do_events matched_orders_append split: option.splits)

lemma no_match_then_do:
  assumes "matched_orders (fst (snd r)) = []"
    and "\<And>w. matched_orders (fst (snd (f w))) = []"
  shows "matched_orders (fst (snd (then_do r f))) = []"
  using assms by (simp add: matched_orders_then_do split: option.splits)

lemma no_match_primitives:
  "matched_orders (fst (snd (set_triggered_price_c order p w))) = []"
  "matched_orders (fst (snd (set_liquidity_side order l w))) = []"
  "matched_orders (fst (snd (call_trigger_stop_order cbs order w))) = []"
  "matched_orders (fst (snd (call_fill_market_order cbs order w))) = []"
  "matched_orders (fst (snd (call_fill_limit_order cbs order w))) = []"
  by (simp_all add: set_triggered_price_c_def set_liquidity_side_def
      call_trigger_stop_order_def call_fill_market_order_def call_fill_limit_order_def
      split: prod.splits)

lemma no_match_fill_if_limit_matched:
  "matched_orders (fst (snd (fill_if_limit_matched cbs order l w))) = []"
  by (simp add: fill_if_limit_matched_def no_match_then_do no_match_primitives
      split: sum.splits)

lemma no_match_market_fill:
  "matched_orders (fst (snd (then_do (set_triggered_price_c order p w)
      (call_fill_market_order cbs order)))) = []"
  by (intro no_match_then_do no_match_primitives)

lemma no_match_activation:
  "matched_orders (fst (snd (then_do r
      (\<lambda>w. then_do (set_liquidity_side order (l w) w)
        (\<lambda>w. then_do (call_trigger_stop_order cbs order w)
                (fill_if_limit_matched cbs order TAKER)))))) = []"
  if "matched_orders (fst (snd r)) = []"
  by (intro no_match_then_do that no_match_primitives no_match_fill_if_limit_matched)

lemma no_match_dispatch: "matched_orders (fst (snd (dispatch cbs order initial w))) = []"
proof -
  have 1: "matched_orders (fst (snd (match_limit_order cbs order w))) = []"
    by (simp add: match_limit_order_def no_match_fill_if_limit_matched)
  have 2: "matched_orders (fst (snd (match_stop_market_order cbs order w))) = []"
    by (simp add: match_stop_market_order_def no_match_market_fill split: sum.splits)
  have 3: "matched_orders (fst (snd (match_market_if_touched_order cbs order w))) = []"
    by (simp add: match_market_if_touched_order_def no_match_market_fill split: sum.splits)
  have 4: "matched_orders (fst (snd (match_stop_limit_order cbs order initial w))) = []"
    by (simp add: match_stop_limit_order_def no_match_fill_if_limit_matched
        no_match_activation no_match_primitives split: sum.splits)
  have 5: "matched_orders (fst (snd (match_limit_if_touched_order cbs order initial w))) = []"
    by (simp add: match_limit_if_touched_order_def no_match_fill_if_limit_matched
        no_match_activation no_match_primitives split: sum.splits)
  from 1 2 3 4 5 show ?thesis by (simp add: dispatch_def)
qed

lemma matched_orders_match_order:
  "matched_orders (fst (snd (match_order cbs order initial w))) = [order]"
  by (simp add: match_order_def matched_orders_then_do no_match_dispatch)

lemma match_order_first_event:
  "\<exists>evs. fst (snd (match_order cbs order initial w)) = MatchOrder order initial # evs"
  by (simp add: match_order_def then_do_events)

lemma subseq_member: "subseq xs ys \<Longrightarrow> x \<in> set xs \<Longrightarrow> x \<in> set ys"
proof -
  assume "subseq xs ys" and "x \<in> set xs"
  then obtain y where "y \<in> set ys" and "x = y" by (rule list_emb_set)
  then show ?thesis by simp
qed

lemma iterate_loop_subseq:
  "subseq (matched_orders (fst (snd (iterate_loop cbs xs w)))) xs"
proof (induction xs arbitrary: w)
  case Nil
  show ?case by simp
next
  case (Cons x xs)
  show ?case
  proof (cases "is_closed (heap w x)")
    case True
    with Cons.IH [of w] show ?thesis by (simp add: list_emb_Cons)
  next
    case False
    have "subseq (x # (case fst (match_order cbs x False w) of
                         None \<Rightarrow> matched_orders (fst (snd (iterate_loop cbs xs
                                   (snd (snd (match_order cbs x False w))))))
                       | Some e \<Rightarrow> [])) (x # xs)"
      using Cons.IH by (simp split: option.splits)
    with False show ?thesis
      by (simp add: matched_orders_then_do matched_orders_match_order)
  qed
qed

subsection \<open>Sweeps that return normally\<close>

lemma kept_refl: "kept S w w"
  by (simp add: kept_def)

lemma kept_trans: "kept S w1 w2 \<Longrightarrow> kept S w2 w3 \<Longrightarrow> kept S w1 w3"
  by (auto simp: kept_def)

lemma kept_UNIV: "kept S w w' \<Longrightarrow> kept UNIV w w'"
  by (simp add: kept_def)

lemma kept_matchable: "kept S w w' \<Longrightarrow> matchable w' = matchable w"
  by (rule ext) (simp add: kept_def matchable_def)

lemma outcome_ok_unit: "outcome_ok S w (None, evs, w)"
  by (simp add: outcome_ok_def kept_refl)

lemma outcome_ok_then_do:
  assumes "outcome_ok S w r" and "\<And>w1. kept S w w1 \<Longrightarrow> outcome_ok S w1 (f w1)"
  shows "outcome_ok S w (then_do r f)"
proof -
  obtain evs w1 where r: "r = (None, evs, w1)" and k: "kept S w w1"
    using assms(1) by (cases r) (auto simp: outcome_ok_def)
  from assms(2) [OF k] have "fst (f w1) = None" and "kept S w1 (snd (snd (f w1)))"
    by (simp_all add: outcome_ok_def)
  with k have "fst (f w1) = None" and "kept S w (snd (snd (f w1)))"
    by (auto intro: kept_trans)
  then show ?thesis unfolding r
    by (auto simp: outcome_ok_def then_do_None split: prod.splits)
qed

lemma outcome_ok_primitives:
  "outcome_ok S w (set_triggered_price_c order p w)"
  "outcome_ok S w (set_liquidity_side order l w)"
  by (simp_all add: outcome_ok_def kept_def set_triggered_price_c_def set_liquidity_side_def)

lemma outcome_ok_calls:
  assumes "callbacks_orderly S cbs"
  shows "outcome_ok (S order) w (call_trigger_stop_order cbs order w)"
    and "outcome_ok (S order) w (call_fill_market_order cbs order w)"
    and "outcome_ok (S order) w (call_fill_limit_order cbs order w)"
proof -
  from assms have "fst (trigger_stop_order cbs order w) = None"
    "kept (S order) w (snd (trigger_stop_order cbs order w))"
    "fst (fill_market_order cbs order w) = None"
    "kept (S order) w (snd (fill_market_order cbs order w))"
    "fst (fill_limit_order cbs order w) = None"
    "kept (S order) w (snd (fill_limit_order cbs order w))"
    by (simp_all add: callbacks_orderly_def callback_orderly_def)
  then show "outcome_ok (S order) w (call_trigger_stop_order cbs order w)"
    and "outcome_ok (S order) w (call_fill_market_order cbs order w)"
    and "outcome_ok (S order) w (call_fill_limit_order cbs order w)"
    by (auto simp: outcome_ok_def call_trigger_stop_order_def call_fill_market_order_def
        call_fill_limit_order_def split: prod.splits)
qed

lemma predicates_return:
  assumes "sd = BUY \<or> sd = SELL"
  shows "\<exists>b. is_limit_matched c sd p = Inr b" "\<exists>b. is_stop_triggered c sd p = Inr b"
    "\<exists>b. is_touch_triggered c sd p = Inr b"
  using assms
  by (auto simp: is_limit_matched_def is_stop_triggered_def is_touch_triggered_def)

lemma outcome_ok_fill_if_limit_matched:
  assumes cb: "callbacks_orderly S cbs"
    and v: "side (heap w order) = BUY \<or> side (heap w order) = SELL"
  shows "outcome_ok (S order) w (fill_if_limit_matched cbs order l w)"
proof -
  from predicates_return(1) [OF v] obtain b where
    b: "is_limit_matched (core w) (side (heap w order)) (price (heap w order)) = Inr b"
    by blast
  have "outcome_ok (S order) w
          (then_do (set_liquidity_side order l w) (call_fill_limit_order cbs order))"
    by (rule outcome_ok_then_do) (rule outcome_ok_primitives, rule outcome_ok_calls [OF cb])
  with b show ?thesis by (simp add: fill_if_limit_matched_def outcome_ok_unit)
qed

lemma outcome_ok_market_fill:
  assumes cb: "callbacks_orderly S cbs"
  shows "outcome_ok (S order) w
           (then_do (set_triggered_price_c order p w) (call_fill_market_order cbs order))"
  by (rule outcome_ok_then_do) (rule outcome_ok_primitives, rule outcome_ok_calls [OF cb])

lemma outcome_ok_activation:
  assumes cb: "callbacks_orderly S cbs"
    and v: "side (heap w order) = BUY \<or> side (heap w order) = SELL"
    and r: "outcome_ok (S order) w r"
  shows "outcome_ok (S order) w (then_do r
           (\<lambda>w. then_do (set_liquidity_side order (l w) w)
             (\<lambda>w. then_do (call_trigger_stop_order cbs order w)
                     (fill_if_limit_matched cbs order TAKER))))"
proof (rule outcome_ok_then_do [OF r])
  fix w1 assume k1: "kept (S order) w w1"
  show "outcome_ok (S order) w1 (then_do (set_liquidity_side order (l w1) w1)
          (\<lambda>w. then_do (call_trigger_stop_order cbs order w)
                  (fill_if_limit_matched cbs order TAKER)))"
  proof (rule outcome_ok_then_do [OF outcome_ok_primitives(2)])
    fix w2 assume k2: "kept (S order) w1 w2"
    show "outcome_ok (S order) w2 (then_do (call_trigger_stop_order cbs order w2)
            (fill_if_limit_matched cbs order TAKER))"
    proof (rule outcome_ok_then_do [OF outcome_ok_calls(1) [OF cb]])
      fix w3 assume k3: "kept (S order) w2 w3"
      from k1 k2 k3 have "side (heap w3 order) = side (heap w order)"
        by (simp add: kept_def)
      with v have "side (heap w3 order) = BUY \<or> side (heap w3 order) = SELL" by simp
      then show "outcome_ok (S order) w3 (fill_if_limit_matched cbs order TAKER w3)"
        by (rule outcome_ok_fill_if_limit_matched [OF cb])
    qed
  qed
qed

lemma outcome_ok_dispatch:
  assumes cb: "callbacks_orderly S cbs" and m: "matchable w order"
  shows "outcome_ok (S order) w (dispatch cbs order initial w)"
proof -
  from m have v: "side (heap w order) = BUY \<or> side (heap w order) = SELL"
    and ty: "order_type (heap w order) \<noteq> MARKET" by (simp_all add: matchable_def)
  note f = outcome_ok_fill_if_limit_matched [OF cb v]
  note mf = outcome_ok_market_fill [OF cb]
  note u = outcome_ok_unit
  from predicates_return(2) [OF v] obtain bs where
    bs: "is_stop_triggered (core w) (side (heap w order)) (trigger_price (heap w order)) = Inr bs"
    by blast
  from predicates_return(3) [OF v] obtain bt where
    bt: "is_touch_triggered (core w) (side (heap w order)) (trigger_price (heap w order)) = Inr bt"
    by blast
  have 1: "outcome_ok (S order) w (match_limit_order cbs order w)"
    by (simp add: match_limit_order_def f)
  have 2: "outcome_ok (S order) w (match_stop_market_order cbs order w)"
    by (simp add: match_stop_market_order_def bs mf u)
  have 3: "outcome_ok (S order) w (match_market_if_touched_order cbs order w)"
    by (simp add: match_market_if_touched_order_def bt mf u)
  have 4: "outcome_ok (S order) w (match_stop_limit_order cbs order initial w)"
    by (simp add: match_stop_limit_order_def bs f u
        outcome_ok_activation [OF cb v outcome_ok_primitives(1)])
  have 5: "outcome_ok (S order) w (match_limit_if_touched_order cbs order initial w)"
    by (simp add: match_limit_if_touched_order_def bt f u
        outcome_ok_activation [OF cb v outcome_ok_primitives(1)]
        outcome_ok_activation [OF cb v outcome_ok_unit])
  from 1 2 3 4 5 ty show ?thesis
    by (cases "order_type (heap w order)") (simp_all add: dispatch_def)
qed

lemma outcome_ok_match_order:
  assumes cb: "callbacks_orderly S cbs" and m: "matchable w order"
  shows "outcome_ok (S order) w (match_order cbs order initial w)"
  using outcome_ok_dispatch [OF cb m, of initial]
  by (auto simp: match_order_def then_do_None outcome_ok_def split: prod.splits)

lemma then_do_after_normal:
  assumes "fst r = None"
  shows "fst (then_do r f) = fst (f (snd (snd r)))"
    and "fst (snd (then_do r f)) = fst (snd r) @ fst (snd (f (snd (snd r))))"
    and "snd (snd (then_do r f)) = snd (snd (f (snd (snd r))))"
  using assms by (cases r; auto simp: then_do_None split: prod.splits)+

lemma iterate_loop_orderly:
  assumes cb: "callbacks_orderly S cbs"
  shows "list_all (matchable w) xs \<Longrightarrow>
     fst (iterate_loop cbs xs w) = None
     \<and> kept UNIV w (snd (snd (iterate_loop cbs xs w)))
     \<and> (\<forall>x \<in> set xs.
           x \<in> set (matched_orders (fst (snd (iterate_loop cbs xs w))))
           \<or> is_closed (heap (snd (snd (iterate_loop cbs xs w))) x))
     \<and> (\<forall>x. is_closed (heap w x)
           \<longrightarrow> x \<notin> set (matched_orders (fst (snd (iterate_loop cbs xs w)))))"
proof (induction xs arbitrary: w)
  case Nil
  show ?case by (simp add: kept_refl)
next
  case (Cons x xs)
  from Cons.prems have mx: "matchable w x" and mxs: "list_all (matchable w) xs" by simp_all
  show ?case
  proof (cases "is_closed (heap w x)")
    case True
    from Cons.IH [OF mxs] have
      n: "fst (iterate_loop cbs xs w) = None"
      and k: "kept UNIV w (snd (snd (iterate_loop cbs xs w)))"
      and a: "\<forall>y \<in> set xs. y \<in> set (matched_orders (fst (snd (iterate_loop cbs xs w))))
                \<or> is_closed (heap (snd (snd (iterate_loop cbs xs w))) y)"
      and c: "\<forall>y. is_closed (heap w y)
                \<longrightarrow> y \<notin> set (matched_orders (fst (snd (iterate_loop cbs xs w))))"
      by blast+
    from k True have "is_closed (heap (snd (snd (iterate_loop cbs xs w))) x)"
      by (simp add: kept_def)
    with True n k a c show ?thesis by simp
  next
    case False
    let ?r = "match_order cbs x False w"
    let ?w1 = "snd (snd ?r)"
    from outcome_ok_match_order [OF cb mx] have
      rn: "fst ?r = None" and rk: "kept (S x) w ?w1" by (simp_all add: outcome_ok_def)
    from mxs have "list_all (matchable ?w1) xs"
      unfolding kept_matchable [OF rk] .
    from Cons.IH [OF this] have
      n: "fst (iterate_loop cbs xs ?w1) = None"
      and k: "kept UNIV ?w1 (snd (snd (iterate_loop cbs xs ?w1)))"
      and a: "\<forall>y \<in> set xs. y \<in> set (matched_orders (fst (snd (iterate_loop cbs xs ?w1))))
                \<or> is_closed (heap (snd (snd (iterate_loop cbs xs ?w1))) y)"
      and c: "\<forall>y. is_closed (heap ?w1 y)
                \<longrightarrow> y \<notin> set (matched_orders (fst (snd (iterate_loop cbs xs ?w1))))"
      by blast+
    have l: "iterate_loop cbs (x # xs) w = then_do ?r (iterate_loop cbs xs)"
      using False by simp
    have e: "fst (iterate_loop cbs (x # xs) w) = None"
      unfolding l then_do_after_normal(1) [OF rn] by (rule n)
    have wf: "snd (snd (iterate_loop cbs (x # xs) w)) = snd (snd (iterate_loop cbs xs ?w1))"
      unfolding l then_do_after_normal(3) [OF rn] ..
    have mo: "matched_orders (fst (snd (iterate_loop cbs (x # xs) w)))
                = x # matched_orders (fst (snd (iterate_loop cbs xs ?w1)))"
      unfolding l then_do_after_normal(2) [OF rn]
      by (simp add: matched_orders_append matched_orders_match_order)
    have kf: "kept UNIV w (snd (snd (iterate_loop cbs (x # xs) w)))"
      unfolding wf by (rule kept_trans [OF kept_UNIV [OF rk] k])
    have af: "\<forall>y \<in> set (x # xs).
                y \<in> set (matched_orders (fst (snd (iterate_loop cbs (x # xs) w))))
                \<or> is_closed (heap (snd (snd (iterate_loop cbs (x # xs) w))) y)"
      unfolding wf mo using a by auto
    have cf: "\<forall>y. is_closed (heap w y)
                \<longrightarrow> y \<notin> set (matched_orders (fst (snd (iterate_loop cbs (x # xs) w))))"
    proof (intro allI impI)
      fix y assume cy: "is_closed (heap w y)"
      with False have "y \<noteq> x" by auto
      moreover from cy rk have "is_closed (heap ?w1 y)" by (simp add: kept_def)
      with c have "y \<notin> set (matched_orders (fst (snd (iterate_loop cbs xs ?w1))))" by blast
      ultimately show "y \<notin> set (matched_orders (fst (snd (iterate_loop cbs (x # xs) w))))"
        unfolding mo by simp
    qed
    from e kf af cf show ?thesis by blast
  qed
qed

lemma iterate_loop_close_own:
  assumes cb: "callbacks_orderly (\<lambda>order. {order}) cbs"
  shows "list_all (matchable w) xs \<Longrightarrow> distinct xs \<Longrightarrow>
     matched_orders (fst (snd (iterate_loop cbs xs w)))
       = filter (\<lambda>x. \<not> is_closed (heap w x)) xs"
proof (induction xs arbitrary: w)
  case Nil
  show ?case by simp
next
  case (Cons x xs)
  from Cons.prems have mx: "matchable w x" and mxs: "list_all (matchable w) xs"
    and nx: "x \<notin> set xs" and dx: "distinct xs" by simp_all
  show ?case
  proof (cases "is_closed (heap w x)")
    case True
    with Cons.IH [OF mxs dx] show ?thesis by simp
  next
    case False
    let ?r = "match_order cbs x False w"
    let ?w1 = "snd (snd ?r)"
    from outcome_ok_match_order [OF cb mx] have
      rn: "fst ?r = None" and rk: "kept {x} w ?w1" by (simp_all add: outcome_ok_def)
    from mxs have m1: "list_all (matchable ?w1) xs"
      unfolding kept_matchable [OF rk] .
    have same: "filter (\<lambda>y. \<not> is_closed (heap ?w1 y)) xs
                  = filter (\<lambda>y. \<not> is_closed (heap w y)) xs"
    proof (rule filter_cong [OF refl])
      fix y assume "y \<in> set xs"
      with nx have "y \<notin> {x}" by auto
      with rk show "(\<not> is_closed (heap ?w1 y)) = (\<not> is_closed (heap w y))"
        by (simp add: kept_def)
    qed
    have l: "iterate_loop cbs (x # xs) w = then_do ?r (iterate_loop cbs xs)"
      using False by simp
    have "matched_orders (fst (snd (iterate_loop cbs (x # xs) w)))
            = x # matched_orders (fst (snd (iterate_loop cbs xs ?w1)))"
      unfolding l then_do_after_normal(2) [OF rn]
      by (simp add: matched_orders_append matched_orders_match_order)
    with Cons.IH [OF m1 dx] same False show ?thesis by simp
  qed
qed

lemma world_book_triggered_eq:
  "world_book_triggered =
     world_book\<lparr>heap := store_book
       (1 := (store_book 1)\<lparr>triggered_price := Some 100, liquidity_side := TAKER,
               is_triggered := True\<rparr>)\<rparr>"
  by (simp add: world_book_triggered_def world_book_sweep)

text \<open>
  Claim C7, as stated: the sweep takes the bids first in descending priority, then the asks
  in ascending priority. It fails in a state whose bid list is out of order, which a sweep
  that triggers a resting stop-limit order leaves behind (claim C1). In the book that the
  sweep of the sorted-lists example leaves, the bid list \<open>[0, 1]\<close> has the keys 150, 200, and
  the next sweep matches order 0 before order 1.
\<close>

theorem sweep_follows_list_not_priority:
  "book_sorted world_book
   \<and> world_book_triggered = snd (snd (iterate engine_callbacks 0 world_book))
   \<and> orders_bid (core world_book_triggered) = [0, 1]
   \<and> orders_ask (core world_book_triggered) = []
   \<and> keyed (heap world_book_triggered) (orders_bid (core world_book_triggered))
       = Inr [(150, 0), (200, 1)]
   \<and> fst (iterate engine_callbacks 0 world_book_triggered) = None
   \<and> matched_orders (fst (snd (iterate engine_callbacks 0 world_book_triggered))) = [0, 1]"
proof -
  have s: "book_sorted world_book"
    by (simp add: book_sorted_def bids_sorted_def asks_sorted_def world_book_core
        order_sort_key_def store_book_def example_order_def init_core_def
        world_book_def [THEN arg_cong, of heap])
  have d: "world_book_triggered = snd (snd (iterate engine_callbacks 0 world_book))"
    by (rule world_book_triggered_def)
  have c: "core world_book_triggered = core world_book"
    by (simp add: world_book_triggered_eq)
  have h: "heap world_book_triggered = store_book
       (1 := (store_book 1)\<lparr>triggered_price := Some 100, liquidity_side := TAKER,
               is_triggered := True\<rparr>)"
    by (simp add: world_book_triggered_eq)
  have b: "orders_bid (core world_book_triggered) = [0, 1]"
    and a: "orders_ask (core world_book_triggered) = []"
    by (simp_all add: c world_book_core init_core_def)
  have k: "keyed (heap world_book_triggered) (orders_bid (core world_book_triggered))
       = Inr [(150, 0), (200, 1)]"
    by (simp add: b h order_sort_key_def store_book_def example_order_def)
  have i: "iterate engine_callbacks 0 world_book_triggered
             = (None, [MatchOrder 0 False, MatchOrder 1 False], world_book_triggered)"
    by (simp add: iterate_def a b h c world_book_core match_order_def dispatch_def
        match_limit_order_def match_stop_limit_order_def fill_if_limit_matched_def
        is_limit_matched_def then_do_def store_book_def example_order_def init_core_def)
  from s d b a k show ?thesis unfolding i by simp
qed

text \<open>
  Claim C7, amended. \<open>iterate\<close> sweeps the orders that are in \<open>orders_bid\<close> followed by
  \<open>orders_ask\<close> at entry, in the order of those lists: the orders it calls \<open>match_order\<close> on
  are a subsequence of that snapshot, so an order that a callback adds during the sweep is
  not matched in it. The snapshot is the bids in descending priority followed by the asks
  in ascending priority when the side lists are sorted at entry, and not otherwise. When
  the turn of an order of the snapshot comes, the order is skipped, with no \<open>match_order\<close>
  call and no change of state, if \<open>is_closed\<close> is true at that moment, also when an earlier
  callback of the same sweep closed it; otherwise \<open>match_order(order)\<close> is the next thing that
  happens, with \<open>initial\<close> false. An exception ends the sweep where it is raised. When the
  orders of the snapshot have a type and side that \<open>match_order\<close> accepts and the callbacks
  return normally, leave type and side of the orders alone and never reopen a closed order,
  the sweep returns normally, the turn of every order of the snapshot comes, every order
  of the snapshot has been matched or is closed after the sweep, and no order that was
  closed at entry has been matched; when moreover the callbacks close no order but the one
  they are called on and no order is twice in the snapshot, the orders matched are exactly
  the orders of the snapshot that were open at entry, in snapshot order.
\<close>

theorem iterate_sweeps_snapshot:
  "subseq (matched_orders (fst (snd (iterate cbs ts w))))
     (orders_bid (core w) @ orders_ask (core w))
   \<and> (y \<notin> set (orders_bid (core w) @ orders_ask (core w))
        \<longrightarrow> y \<notin> set (matched_orders (fst (snd (iterate cbs ts w)))))
   \<and> (book_sorted w \<longrightarrow>
        (\<exists>kb ka. keyed (heap w) (orders_bid (core w)) = Inr kb
           \<and> keyed (heap w) (orders_ask (core w)) = Inr ka
           \<and> sorted_wrt (\<ge>) (map fst kb) \<and> sorted_wrt (\<le>) (map fst ka)))
   \<and> (orders_bid (core w) @ orders_ask (core w) = pre @ x # post
        \<and> iterate_loop cbs pre w = (None, evs, wt) \<longrightarrow>
        (is_closed (heap wt x)
           \<longrightarrow> iterate cbs ts w = then_do (None, evs, wt) (iterate_loop cbs post))
        \<and> (\<not> is_closed (heap wt x)
           \<longrightarrow> iterate cbs ts w =
                 then_do (None, evs, wt)
                   (\<lambda>w'. then_do (match_order cbs x False w') (iterate_loop cbs post))
               \<and> (\<exists>evs2. fst (snd (iterate cbs ts w)) = evs @ MatchOrder x False # evs2)))
   \<and> (callbacks_never_reopen cbs
        \<and> list_all (matchable w) (orders_bid (core w) @ orders_ask (core w)) \<longrightarrow>
        fst (iterate cbs ts w) = None
        \<and> (orders_bid (core w) @ orders_ask (core w) = pre @ x # post
             \<longrightarrow> fst (iterate_loop cbs pre w) = None)
        \<and> list_all (\<lambda>z. z \<in> set (matched_orders (fst (snd (iterate cbs ts w))))
                         \<or> is_closed (heap (snd (snd (iterate cbs ts w))) z))
             (orders_bid (core w) @ orders_ask (core w))
        \<and> (is_closed (heap w y)
             \<longrightarrow> y \<notin> set (matched_orders (fst (snd (iterate cbs ts w))))))
   \<and> (callbacks_close_own cbs
        \<and> list_all (matchable w) (orders_bid (core w) @ orders_ask (core w))
        \<and> distinct (orders_bid (core w) @ orders_ask (core w)) \<longrightarrow>
        matched_orders (fst (snd (iterate cbs ts w)))
          = filter (\<lambda>z. \<not> is_closed (heap w z)) (orders_bid (core w) @ orders_ask (core w)))"
  (is "?A \<and> ?B \<and> ?P \<and> (?S \<longrightarrow> ?C \<and> ?D) \<and> ?N \<and> ?O")
proof -
  have a: ?A unfolding iterate_def by (rule iterate_loop_subseq)
  have b: ?B using subseq_member [OF a] by blast
  have p: ?P by (auto simp: book_sorted_def bids_sorted_def asks_sorted_def split: sum.splits)
  have cd: "?C \<and> ?D" if s: ?S
  proof (intro conjI impI)
    from s have snap: "orders_bid (core w) @ orders_ask (core w) = pre @ x # post"
      and pre: "iterate_loop cbs pre w = (None, evs, wt)" by (rule conjunct1, rule conjunct2)
    show "iterate cbs ts w = then_do (None, evs, wt) (iterate_loop cbs post)"
      if "is_closed (heap wt x)"
      unfolding iterate_def snap iterate_loop_append pre then_do_None
      using that by simp
    assume o: "\<not> is_closed (heap wt x)"
    show e: "iterate cbs ts w =
               then_do (None, evs, wt)
                 (\<lambda>w'. then_do (match_order cbs x False w') (iterate_loop cbs post))"
      unfolding iterate_def snap iterate_loop_append pre then_do_None
      using o by simp
    obtain evm where m: "fst (snd (match_order cbs x False wt)) = MatchOrder x False # evm"
      using match_order_first_event by blast
    show "\<exists>evs2. fst (snd (iterate cbs ts w)) = evs @ MatchOrder x False # evs2"
      unfolding e then_do_events using m by simp
  qed
  have n: ?N
  proof (intro impI)
    assume h: "callbacks_never_reopen cbs
        \<and> list_all (matchable w) (orders_bid (core w) @ orders_ask (core w))"
    then have cb: "callbacks_orderly (\<lambda>order. UNIV) cbs"
      and ma: "list_all (matchable w) (orders_bid (core w) @ orders_ask (core w))"
      by (simp_all add: callbacks_never_reopen_def)
    note l = iterate_loop_orderly [OF cb ma, folded iterate_def [of cbs ts w]]
    have pr: "fst (iterate_loop cbs pre w) = None"
      if "orders_bid (core w) @ orders_ask (core w) = pre @ x # post"
    proof -
      from ma that have "list_all (matchable w) pre" by simp
      from iterate_loop_orderly [OF cb this] show ?thesis by blast
    qed
    from l pr show
      "fst (iterate cbs ts w) = None
        \<and> (orders_bid (core w) @ orders_ask (core w) = pre @ x # post
             \<longrightarrow> fst (iterate_loop cbs pre w) = None)
        \<and> list_all (\<lambda>z. z \<in> set (matched_orders (fst (snd (iterate cbs ts w))))
                         \<or> is_closed (heap (snd (snd (iterate cbs ts w))) z))
             (orders_bid (core w) @ orders_ask (core w))
        \<and> (is_closed (heap w y)
             \<longrightarrow> y \<notin> set (matched_orders (fst (snd (iterate cbs ts w)))))"
      by (simp add: list_all_iff)
  qed
  have o: ?O
    using iterate_loop_close_own [of cbs w "orders_bid (core w) @ orders_ask (core w)"]
    by (simp add: callbacks_close_own_def iterate_def)
  from a b p cd n o show ?thesis by blast
qed

text \<open>
  The amended claim on the sweep example, whose side lists are sorted at entry. The
  snapshot is \<open>[0, 1]\<close>, both orders open and marketable. With the fill callback that
  closes order 1 and adds order 2, the sweep returns normally; order 0 is matched and
  filled; order 1 is closed when its turn comes and is skipped; order 2 is in the bid list
  after the sweep and was not matched. With fill callbacks that close the filled order
  only, the sweep returns normally and matches order 0 and then order 1.
\<close>

lemma world_sweep_core:
  "core world_sweep =
     init_core\<lparr>orders := [0 \<mapsto> 0, 1 \<mapsto> 1], orders_bid := [0, 1],
       is_ask_initialized := True, ask_raw := 10000\<rparr>"
  by (simp add: world_sweep_def add_order_def sort_bid_orders_def list_sort_def
      order_sort_key_def store_sweep_def example_order_def init_core_def set_ask_raw_def)

lemma sweep_first_turn:
  "iterate_loop sweep_callbacks [0] world_sweep =
     (None, [MatchOrder 0 False, SetLiquiditySide 0 MAKER, FillLimitOrder 0],
      \<lparr>core = (core world_sweep)\<lparr>orders := [0 \<mapsto> 0, 1 \<mapsto> 1, 2 \<mapsto> 2],
                  orders_bid := [0, 1, 2]\<rparr>,
       heap = store_sweep
         (0 := (store_sweep 0)\<lparr>liquidity_side := MAKER, is_closed := True\<rparr>,
          1 := (store_sweep 1)\<lparr>is_closed := True\<rparr>)\<rparr>)"
  by (simp add: world_sweep_core match_order_def dispatch_def match_limit_order_def
      fill_if_limit_matched_def is_limit_matched_def then_do_def set_liquidity_side_def
      call_fill_limit_order_def sweep_callbacks_def fill_close_and_requeue_def Let_def
      add_order_def sort_bid_orders_def list_sort_def order_sort_key_def
      world_sweep_def [THEN arg_cong, of heap] store_sweep_def example_order_def init_core_def)

lemma heap_update_orderly:
  assumes "\<And>ord. order_type (f ord) = order_type ord \<and> side (f ord) = side ord
             \<and> (is_closed ord \<longrightarrow> is_closed (f ord))"
  shows "callback_orderly (\<lambda>order. {order})
           (\<lambda>order w. (None, w\<lparr>heap := (heap w)(order := f (heap w order))\<rparr>))"
  using assms by (simp add: callback_orderly_def kept_def)

lemma callback_orderly_UNIV:
  "callback_orderly S cb \<Longrightarrow> callback_orderly (\<lambda>order. UNIV) cb"
  by (simp add: callback_orderly_def kept_def)

lemma close_own_never_reopen: "callbacks_close_own cbs \<Longrightarrow> callbacks_never_reopen cbs"
  by (auto simp: callbacks_close_own_def callbacks_never_reopen_def callbacks_orderly_def
      intro: callback_orderly_UNIV)

lemma engine_callbacks_close_own: "callbacks_close_own engine_callbacks"
  using heap_update_orderly [of "\<lambda>ord. ord\<lparr>is_triggered := True\<rparr>"]
    heap_update_orderly [of "\<lambda>ord. ord\<lparr>is_closed := True\<rparr>"]
  by (simp add: callbacks_close_own_def callbacks_orderly_def engine_callbacks_def
      close_order_def [abs_def] mark_triggered_def [abs_def])

lemma sweep_callbacks_never_reopen: "callbacks_never_reopen sweep_callbacks"
proof -
  have 1: "callback_orderly (\<lambda>order. UNIV) mark_triggered"
    using heap_update_orderly [of "\<lambda>ord. ord\<lparr>is_triggered := True\<rparr>", THEN callback_orderly_UNIV]
    by (simp add: mark_triggered_def [abs_def])
  have 2: "callback_orderly (\<lambda>order. UNIV) close_order"
    using heap_update_orderly [of "\<lambda>ord. ord\<lparr>is_closed := True\<rparr>", THEN callback_orderly_UNIV]
    by (simp add: close_order_def [abs_def])
  have 3: "callback_orderly (\<lambda>order. UNIV) fill_close_and_requeue"
    by (simp add: callback_orderly_def kept_def fill_close_and_requeue_def Let_def)
  from 1 2 3 show ?thesis
    by (simp add: callbacks_never_reopen_def callbacks_orderly_def sweep_callbacks_def)
qed

theorem iterate_sweeps_snapshot_witness:
  "orders_bid (core world_sweep) @ orders_ask (core world_sweep) = [0, 1]
   \<and> book_sorted world_sweep
   \<and> keyed (heap world_sweep) (orders_bid (core world_sweep)) = Inr [(10050, 0), (10049, 1)]
   \<and> list_all (matchable world_sweep) [0, 1]
   \<and> \<not> is_closed (heap world_sweep 0) \<and> \<not> is_closed (heap world_sweep 1)
   \<and> callbacks_never_reopen sweep_callbacks
   \<and> fst (iterate sweep_callbacks 0 world_sweep) = None
   \<and> is_closed (heap (snd (snd (iterate_loop sweep_callbacks [0] world_sweep))) 1)
   \<and> fst (snd (iterate sweep_callbacks 0 world_sweep))
       = [MatchOrder 0 False, SetLiquiditySide 0 MAKER, FillLimitOrder 0]
   \<and> iterate sweep_callbacks 0 world_sweep = iterate_loop sweep_callbacks [0] world_sweep
   \<and> orders_bid (core (snd (snd (iterate sweep_callbacks 0 world_sweep)))) = [0, 1, 2]
   \<and> 2 \<notin> set (matched_orders (fst (snd (iterate sweep_callbacks 0 world_sweep))))
   \<and> is_closed (heap (snd (snd (iterate sweep_callbacks 0 world_sweep))) 1)
   \<and> callbacks_close_own engine_callbacks
   \<and> fst (iterate engine_callbacks 0 world_sweep) = None
   \<and> matched_orders (fst (snd (iterate engine_callbacks 0 world_sweep))) = [0, 1]"
proof -
  let ?evs = "[MatchOrder 0 False, SetLiquiditySide 0 MAKER, FillLimitOrder 0]"
  let ?wt = "\<lparr>core = (core world_sweep)\<lparr>orders := [0 \<mapsto> 0, 1 \<mapsto> 1, 2 \<mapsto> 2],
                      orders_bid := [0, 1, 2]\<rparr>,
             heap = store_sweep
               (0 := (store_sweep 0)\<lparr>liquidity_side := MAKER, is_closed := True\<rparr>,
                1 := (store_sweep 1)\<lparr>is_closed := True\<rparr>)\<rparr>"
  have t: "iterate_loop sweep_callbacks [0] world_sweep = (None, ?evs, ?wt)"
    by (rule sweep_first_turn)
  have snap: "orders_bid (core world_sweep) @ orders_ask (core world_sweep) = [0, 1]"
    by (simp add: world_sweep_core init_core_def)
  have hp: "heap world_sweep = store_sweep" by (simp add: world_sweep_def)
  have ky: "keyed (heap world_sweep) (orders_bid (core world_sweep))
              = Inr [(10050, 0), (10049, 1)]"
    by (simp add: hp world_sweep_core init_core_def order_sort_key_def store_sweep_def
        example_order_def)
  have bs: "book_sorted world_sweep"
    by (simp add: book_sorted_def bids_sorted_def asks_sorted_def ky)
      (simp add: world_sweep_core init_core_def)
  have ma: "list_all (matchable world_sweep) [0, 1]"
    by (simp add: matchable_def hp store_sweep_def example_order_def)
  have di: "distinct [0, 1 :: nat]" by simp
  have op: "\<not> is_closed (heap world_sweep 0)" "\<not> is_closed (heap world_sweep 1)"
    by (simp_all add: world_sweep_def store_sweep_def example_order_def)
  have cl: "is_closed (heap ?wt 1)" by simp
  have h1: "orders_bid (core world_sweep) @ orders_ask (core world_sweep) = [0] @ 1 # []"
    unfolding snap by simp
  have n2: "2 \<notin> set (orders_bid (core world_sweep) @ orders_ask (core world_sweep))"
    unfolding snap by simp
  note nr = sweep_callbacks_never_reopen
  note co = engine_callbacks_close_own
  note inst = iterate_sweeps_snapshot
    [where cbs = sweep_callbacks and ts = 0 and w = world_sweep and y = 2 and pre = "[0]"
       and x = 1 and post = "[]" and evs = ?evs and wt = ?wt]
  note inst2 = iterate_sweeps_snapshot
    [where cbs = engine_callbacks and ts = 0 and w = world_sweep and y = 2 and pre = "[0]"
       and x = 1 and post = "[]" and evs = ?evs and wt = ?wt]
  have nm: "2 \<notin> set (matched_orders (fst (snd (iterate sweep_callbacks 0 world_sweep))))"
    by (rule inst [THEN conjunct2, THEN conjunct1, rule_format, OF n2])
  have "iterate sweep_callbacks 0 world_sweep =
          then_do (None, ?evs, ?wt) (iterate_loop sweep_callbacks [])"
    by (rule inst [THEN conjunct2, THEN conjunct2, THEN conjunct2, THEN conjunct1, rule_format,
          OF conjI [OF h1 t], THEN conjunct1, rule_format, OF cl])
  then have it: "iterate sweep_callbacks 0 world_sweep = (None, ?evs, ?wt)"
    by (simp add: then_do_None)
  have nrm: "fst (iterate sweep_callbacks 0 world_sweep) = None"
    by (rule inst [THEN conjunct2, THEN conjunct2, THEN conjunct2, THEN conjunct2,
          THEN conjunct1, rule_format, OF conjI [OF nr ma [folded snap]], THEN conjunct1])
  have skip:
    "iterate sweep_callbacks 0 world_sweep = iterate_loop sweep_callbacks [0] world_sweep"
    unfolding it t ..
  have cl': "is_closed (heap (snd (snd (iterate_loop sweep_callbacks [0] world_sweep))) 1)"
    unfolding t by simp
  have ev: "fst (snd (iterate sweep_callbacks 0 world_sweep)) = ?evs"
    unfolding it by simp
  have bids: "orders_bid (core (snd (snd (iterate sweep_callbacks 0 world_sweep)))) = [0, 1, 2]"
    unfolding it by simp
  have cle: "is_closed (heap (snd (snd (iterate sweep_callbacks 0 world_sweep))) 1)"
    unfolding it by simp
  have h2: "callbacks_never_reopen engine_callbacks"
    by (rule close_own_never_reopen [OF co])
  have en: "fst (iterate engine_callbacks 0 world_sweep) = None"
    by (rule inst2 [THEN conjunct2, THEN conjunct2, THEN conjunct2, THEN conjunct2,
          THEN conjunct1, rule_format, OF conjI [OF h2 ma [folded snap]], THEN conjunct1])
  have "matched_orders (fst (snd (iterate engine_callbacks 0 world_sweep)))
          = filter (\<lambda>z. \<not> is_closed (heap world_sweep z))
              (orders_bid (core world_sweep) @ orders_ask (core world_sweep))"
    by (rule inst2 [THEN conjunct2, THEN conjunct2, THEN conjunct2, THEN conjunct2,
          THEN conjunct2, rule_format,
          OF conjI [OF co conjI [OF ma [folded snap] di [folded snap]]]])
  then have em: "matched_orders (fst (snd (iterate engine_callbacks 0 world_sweep))) = [0, 1]"
    unfolding snap using op by simp
  from snap bs ky ma op(1) op(2) nr nrm cl' ev skip bids nm cle co en em
  show ?thesis by (intro conjI) assumption+
qed

end
